theory Spec2Isabelle
  imports Complex_Main
begin

section \<open>Durations (src/functions/durationWrapper)\<close>

text \<open>
  A JavaScript number is an IEEE 754 double. \<open>Double m e\<close> is the number \<open>m * 2^e\<close>; the
  result of an operation is the double nearest to the exact result, a tie going to the
  even significand. The range of the exponent is not modelled, so the model is of
  numbers up to \<open>2^1023\<close> in magnitude, where nothing overflows; the numbers below are
  whole or quotients by 60, and none is small enough to be subnormal.
\<close>

datatype double = Double (significand: int) (exponent: int)

text \<open>The number of binary digits of \<open>n\<close>.\<close>

fun width :: "nat \<Rightarrow> nat" where
  "width n = (if n = 0 then 0 else Suc (width (n div 2)))"

declare width.simps [simp del]

text \<open>\<open>a / b\<close> to the nearest whole number, a tie to the even one.\<close>

definition nearestEven :: "nat \<Rightarrow> nat \<Rightarrow> nat" where
  "nearestEven a b =
     (if 2 * (a mod b) < b then a div b
      else if b < 2 * (a mod b) then a div b + 1
      else if even (a div b) then a div b
      else a div b + 1)"

text \<open>\<open>2^e \<le> a / b\<close>, for positive \<open>a\<close> and \<open>b\<close>.\<close>

definition atLeastPower :: "nat \<Rightarrow> nat \<Rightarrow> int \<Rightarrow> bool" where
  "atLeastPower a b e = (if 0 \<le> e then b * 2 ^ nat e \<le> a else b \<le> a * 2 ^ nat (- e))"

text \<open>
  The double nearest to \<open>a / b\<close>, for positive \<open>a\<close> and \<open>b\<close>: with \<open>2^e \<le> a / b < 2^(e+1)\<close>
  the significand is \<open>a / b / 2^(e - 52)\<close> rounded, a number of 53 binary digits.
\<close>

definition nearest :: "nat \<Rightarrow> nat \<Rightarrow> double" where
  "nearest a b =
     (let e0 = int (width a) - int (width b);
          e = (if atLeastPower a b e0 then e0 else e0 - 1);
          k = e - 52
      in if 0 \<le> k then Double (int (nearestEven a (b * 2 ^ nat k))) k
         else Double (int (nearestEven (a * 2 ^ nat (- k)) b)) k)"

text \<open>\<^verbatim>\<open>x / y\<close> for whole numbers \<open>x\<close> and \<open>y > 0\<close>.\<close>

definition numberDivide :: "int \<Rightarrow> int \<Rightarrow> double" where
  "numberDivide x y =
     (if x = 0 then Double 0 0
      else if 0 < x then nearest (nat x) (nat y)
      else Double (- significand (nearest (nat (- x)) (nat y))) (exponent (nearest (nat (- x)) (nat y))))"

text \<open>\<^verbatim>\<open>Math.floor\<close>.\<close>

definition mathFloor :: "double \<Rightarrow> int" where
  "mathFloor d =
     (if 0 \<le> exponent d then significand d * 2 ^ nat (exponent d)
      else significand d div 2 ^ nat (- exponent d))"

text \<open>
  The double nearest to a whole number, itself a whole number: what a product or a
  difference of whole doubles is rounded to.
\<close>

definition rounded :: "int \<Rightarrow> int" where
  "rounded n = mathFloor (numberDivide n 1)"

record WrappedDuration =
  decimalMinutes :: double
  flatMinutes :: int
  seconds :: int
  timestamp :: string

text \<open>The decimal digits of a natural number.\<close>

fun digits :: "nat \<Rightarrow> string" where
  "digits n =
     (if n < 10 then [''0123456789'' ! n]
      else digits (n div 10) @ [''0123456789'' ! (n mod 10)])"

declare digits.simps [simp del]

text \<open>
  A number in a template literal. A whole number below \<open>2^53\<close> in magnitude prints as
  its decimal digits. From there on the digits printed are the shortest that read back
  as the same double, the last of them the implementation's choice, and from \<open>10^21\<close>
  on the form is exponential: that part is the parameter \<open>large\<close>.
\<close>

definition toString :: "(int \<Rightarrow> string) \<Rightarrow> int \<Rightarrow> string" where
  "toString large i =
     (if 0 \<le> i \<and> i < 2 ^ 53 then digits (nat i)
      else if i < 0 \<and> - i < 2 ^ 53 then CHR ''-'' # digits (nat (- i))
      else large i)"

text \<open>
  \<^verbatim>\<open>durationWrapper(seconds)\<close> for a whole number of seconds, as \<^verbatim>\<open>Track.fetchMetadata\<close>
  passes it; \<open>secs\<close> is the value of the argument, a whole number that is a double.
  \<^verbatim>\<open>seconds / 60\<close> is rounded, its floor is exact, \<^verbatim>\<open>minutes * 60\<close> is rounded and so is
  the difference.
\<close>

definition durationWrapper :: "(int \<Rightarrow> string) \<Rightarrow> int \<Rightarrow> WrappedDuration" where
  "durationWrapper large secs =
     (let decimalMinutes = numberDivide secs 60;
          minutes = mathFloor (numberDivide secs 60);
          secondsLeft = rounded (secs - rounded (minutes * 60))
      in \<lparr> decimalMinutes = decimalMinutes,
           flatMinutes = minutes,
           seconds = secondsLeft,
           timestamp = toString large minutes @ '':'' @ toString large secondsLeft \<rparr>)"

text \<open>A \<open>large\<close> for the examples, none of which prints a number it would be asked for.\<close>

definition everyDigit :: "int \<Rightarrow> string" where
  "everyDigit i = (if i < 0 then CHR ''-'' # digits (nat (- i)) else digits (nat i))"

section \<open>Tracks (src/Track.ts)\<close>

record TrackMetadataDetails =
  title :: string
  duration :: WrappedDuration
  uploadedBy :: string
  coverArt :: string

record 'ref TrackMetadata =
  reference :: 'ref
  details :: TrackMetadataDetails

text \<open>
  An \<^verbatim>\<open>AudioResource<TrackMetadata>\<close> of the voice library: the stream it plays and the
  metadata attached by \<^verbatim>\<open>createAudioResource\<close>.
\<close>

record ('ref, 'stream) AudioResource =
  playStream :: 'stream
  metadata :: "'ref TrackMetadata"

record ('ref, 'stream) Track =
  query :: string
  url :: "string option"
  audioResource :: "('ref, 'stream) AudioResource option"
  reference :: 'ref

text \<open>
  \<^verbatim>\<open>Track.create(query, reference)\<close>. The regular expression test \<^verbatim>\<open>isURL\<close> is the
  parameter \<open>isURL\<close>; what the awaited search, metadata fetch and stream probe return
  are the arguments \<open>foundUrl\<close>, \<open>fetched\<close> and \<open>probed\<close>. The \<open>url\<close> field is set by the
  search only, which runs when the query is not a URL. The constructor is private, so
  every track a caller holds was built this way: its resource is present and carries
  the caller's \<open>reference\<close> in its metadata.
\<close>

definition create :: "(string \<Rightarrow> bool) \<Rightarrow> string \<Rightarrow> 'ref \<Rightarrow> string \<Rightarrow> TrackMetadataDetails \<Rightarrow> 'stream \<Rightarrow> ('ref, 'stream) Track" where
  "create isURL q r foundUrl fetched probed =
     \<lparr> query = q,
       url = (if isURL q then None else Some foundUrl),
       audioResource = Some \<lparr> playStream = probed,
                               metadata = \<lparr> TrackMetadata.reference = r, details = fetched \<rparr> \<rparr>,
       Track.reference = r \<rparr>"

text \<open>The property \<open>create\<close> establishes, as a test on a track.\<close>

definition created :: "('ref, 'stream) Track \<Rightarrow> bool" where
  "created t =
     (case audioResource t of
        None \<Rightarrow> False
      | Some r \<Rightarrow> TrackMetadata.reference (metadata r) = Track.reference t)"

section \<open>The audio player, as the subscription sees it\<close>

datatype AudioPlayerStatus = Idle | Buffering | Paused | Playing | AutoPaused

text \<open>
  An \<^verbatim>\<open>AudioPlayerState\<close>: every state but the idle one holds the resource being played.
  \<open>resource\<close> is the field access \<^verbatim>\<open>state.resource\<close>.
\<close>

datatype ('ref, 'stream) AudioPlayerState =
    IdleState
  | BufferingState (resource: "('ref, 'stream) AudioResource")
  | PausedState (resource: "('ref, 'stream) AudioResource")
  | PlayingState (resource: "('ref, 'stream) AudioResource")
  | AutoPausedState (resource: "('ref, 'stream) AudioResource")

fun status :: "('ref, 'stream) AudioPlayerState \<Rightarrow> AudioPlayerStatus" where
  "status IdleState = Idle"
| "status (BufferingState r) = Buffering"
| "status (PausedState r) = Paused"
| "status (PlayingState r) = Playing"
| "status (AutoPausedState r) = AutoPaused"

datatype Error = Error string | TypeError string

text \<open>
  What \<^verbatim>\<open>audioPlayer.play(resource)\<close> does with a resource is the library's business:
  it throws (the resource has ended or belongs to another player), or it takes the
  resource and enters \<^verbatim>\<open>Buffering\<close>, or \<^verbatim>\<open>Playing\<close> when the resource has started
  already. The model takes that verdict as a parameter.
\<close>

datatype PlayOutcome = Throws Error | EntersBuffering | EntersPlaying

type_synonym ('ref, 'stream) player = "('ref, 'stream) AudioResource \<Rightarrow> PlayOutcome"

section \<open>The voice connection, as the subscription sees it\<close>

datatype VoiceConnectionStatus = Signalling | Connecting | Ready | Disconnected | Destroyed

datatype VoiceConnectionDisconnectReason = WebSocketClose | AdapterUnavailable | EndpointRemoved | Manual

text \<open>
  A \<^verbatim>\<open>VoiceConnectionState\<close>; a disconnected state has a \<^verbatim>\<open>reason\<close> and, for a closed
  web socket, a \<^verbatim>\<open>closeCode\<close> (\<open>None\<close> is \<^verbatim>\<open>undefined\<close>).
\<close>

datatype VoiceConnectionState =
    SignallingState
  | ConnectingState
  | ReadyState
  | DisconnectedState (reason: VoiceConnectionDisconnectReason) (closeCode: "int option")
  | DestroyedState

fun connectionStatus :: "VoiceConnectionState \<Rightarrow> VoiceConnectionStatus" where
  "connectionStatus SignallingState = Signalling"
| "connectionStatus ConnectingState = Connecting"
| "connectionStatus ReadyState = Ready"
| "connectionStatus (DisconnectedState r c) = Disconnected"
| "connectionStatus DestroyedState = Destroyed"

text \<open>The calls the subscription makes on its connection, in the order it makes them.\<close>

datatype VoiceConnectionCall = rejoin | destroy

record VoiceConnection =
  state :: VoiceConnectionState
  rejoinAttempts :: nat
  calls :: "VoiceConnectionCall list"

section \<open>The subscription (src/Subscription.ts)\<close>

text \<open>The four notifications of \<^verbatim>\<open>this.emit\<close>, with their arguments.\<close>

datatype 'ref Notification =
    songEnded 'ref TrackMetadataDetails
  | songStarted 'ref TrackMetadataDetails
  | criticalError 'ref Error
  | playingError "'ref option" Error

text \<open>
  The fields of a \<^verbatim>\<open>MusicSubscription\<close>. \<open>audioPlayer\<close> is the player's current state.
  Two fields are traces of effects that leave the object: \<open>emitted\<close> lists the
  notifications sent, \<open>played\<close> the resources the player accepted, oldest first.
\<close>

record ('ref, 'stream) MusicSubscription =
  voiceConnection :: VoiceConnection
  audioPlayer :: "('ref, 'stream) AudioPlayerState"
  queue :: "('ref, 'stream) Track list"
  queueLock :: bool
  readyLock :: bool
  emitted :: "'ref Notification list"
  played :: "('ref, 'stream) AudioResource list"

definition emit :: "'ref Notification \<Rightarrow> ('ref, 'stream) MusicSubscription \<Rightarrow> ('ref, 'stream) MusicSubscription" where
  "emit n s = s\<lparr> emitted := emitted s @ [n] \<rparr>"

text \<open>
  \<^verbatim>\<open>processQueue\<close> is declared \<^verbatim>\<open>async\<close> but awaits nothing, so a call runs to its end
  before the caller continues. The player announces a new state to its
  \<^verbatim>\<open>stateChange\<close> listener at the moment the state is assigned, inside \<^verbatim>\<open>play\<close> and
  \<^verbatim>\<open>stop\<close>; the listener calls \<^verbatim>\<open>processQueue\<close>, which calls \<^verbatim>\<open>play\<close>. The four
  functions are therefore defined together:
  \<^item> \<open>processQueue\<close>, the method;
  \<^item> \<open>play\<close>, the player's \<^verbatim>\<open>play(resource)\<close>, \<open>Inl\<close> the error thrown;
  \<^item> \<open>setState\<close>, the assignment of a player state, which notifies the listener;
  \<^item> \<open>stateChange\<close>, the listener the constructor registers on the player.
\<close>

function processQueue :: "('ref, 'stream) player \<Rightarrow> ('ref, 'stream) MusicSubscription \<Rightarrow> ('ref, 'stream) MusicSubscription"
  and play :: "('ref, 'stream) player \<Rightarrow> ('ref, 'stream) AudioResource option \<Rightarrow> ('ref, 'stream) MusicSubscription \<Rightarrow> Error + ('ref, 'stream) MusicSubscription"
  and setState :: "('ref, 'stream) player \<Rightarrow> ('ref, 'stream) AudioPlayerState \<Rightarrow> ('ref, 'stream) MusicSubscription \<Rightarrow> ('ref, 'stream) MusicSubscription"
  and stateChange :: "('ref, 'stream) player \<Rightarrow> ('ref, 'stream) AudioPlayerState \<Rightarrow> ('ref, 'stream) AudioPlayerState \<Rightarrow> ('ref, 'stream) MusicSubscription \<Rightarrow> ('ref, 'stream) MusicSubscription"
where
  "processQueue p s =
     (if queueLock s \<or> status (audioPlayer s) \<noteq> Idle \<or> length (queue s) = 0 then s
      else
        (case play p (audioResource (hd (queue s))) (s\<lparr> queueLock := True, queue := tl (queue s) \<rparr>) of
           Inr s' \<Rightarrow> s'\<lparr> queueLock := False \<rparr>
         | Inl error \<Rightarrow>
             processQueue p
               ((emit (playingError (map_option (\<lambda>r. TrackMetadata.reference (metadata r))
                                       (audioResource (hd (queue s)))) error)
                   (s\<lparr> queueLock := True, queue := tl (queue s) \<rparr>))
                \<lparr> queueLock := False \<rparr>)))"
| "play p None s = Inl (TypeError ''Cannot read properties of undefined'')"
| "play p (Some r) s =
     (case p r of
        Throws error \<Rightarrow> Inl error
      | EntersBuffering \<Rightarrow> Inr (setState p (BufferingState r) (s\<lparr> played := played s @ [r] \<rparr>))
      | EntersPlaying \<Rightarrow> Inr (setState p (PlayingState r) (s\<lparr> played := played s @ [r] \<rparr>)))"
| "setState p newState s = stateChange p (audioPlayer s) newState (s\<lparr> audioPlayer := newState \<rparr>)"
| "stateChange p oldState newState s =
     (if status newState = Idle \<and> status oldState \<noteq> Idle then
        processQueue p
          (emit (songEnded (TrackMetadata.reference (metadata (resource oldState)))
                           (details (metadata (resource oldState)))) s)
      else if status newState = Playing then
        emit (songStarted (TrackMetadata.reference (metadata (resource newState)))
                          (details (metadata (resource newState)))) s
      else s)"
  by pat_completeness auto

termination
proof (relation "measure (\<lambda>x. case x of
        Inl (Inl (p, s)) \<Rightarrow> 4 * length (queue s)
      | Inl (Inr (p, r, s)) \<Rightarrow> 4 * length (queue s) + 3
      | Inr (Inl (p, n, s)) \<Rightarrow> 4 * length (queue s) + 2
      | Inr (Inr (p, old, n, s)) \<Rightarrow> 4 * length (queue s) + 1)")
qed (auto simp: emit_def neq_Nil_conv)

declare processQueue.simps [simp del] play.simps [simp del] setState.simps [simp del]
  stateChange.simps [simp del]

text \<open>The listener for the player's \<^verbatim>\<open>error\<close> event; \<open>r\<close> is \<^verbatim>\<open>error.resource\<close>.\<close>

definition playerError :: "('ref, 'stream) AudioResource \<Rightarrow> Error \<Rightarrow> ('ref, 'stream) MusicSubscription \<Rightarrow> ('ref, 'stream) MusicSubscription" where
  "playerError r error s = emit (criticalError (TrackMetadata.reference (metadata r)) error) s"

text \<open>
  \<^verbatim>\<open>audioPlayer.stop(true)\<close>: an idle player stays as it is, any other is put into the
  idle state at once.
\<close>

definition stopPlayer :: "('ref, 'stream) player \<Rightarrow> ('ref, 'stream) MusicSubscription \<Rightarrow> ('ref, 'stream) MusicSubscription" where
  "stopPlayer p s = (if status (audioPlayer s) = Idle then s else setState p IdleState s)"

definition enqueue :: "('ref, 'stream) player \<Rightarrow> ('ref, 'stream) Track \<Rightarrow> ('ref, 'stream) MusicSubscription \<Rightarrow> ('ref, 'stream) MusicSubscription" where
  "enqueue p track s = processQueue p (s\<lparr> queue := queue s @ [track] \<rparr>)"

definition stop :: "('ref, 'stream) player \<Rightarrow> ('ref, 'stream) MusicSubscription \<Rightarrow> ('ref, 'stream) MusicSubscription" where
  "stop p s = stopPlayer p (s\<lparr> queueLock := True, queue := [] \<rparr>)"

text \<open>
  The constructor up to its last statement: a new player, idle, an empty queue, both
  locks open. The last statement, \<^verbatim>\<open>voiceConnection.subscribe\<close>, is \<open>subscribe\<close> below.
\<close>

definition construct :: "VoiceConnection \<Rightarrow> ('ref, 'stream) MusicSubscription" where
  "construct c =
     \<lparr> voiceConnection = c, audioPlayer = IdleState, queue = [], queueLock = False,
       readyLock = False, emitted = [], played = [] \<rparr>"

subsection \<open>The player's own moves\<close>

text \<open>
  Between calls the player changes state by itself: a buffering resource becomes
  readable, a playing one ends or is paused. It keeps its resource, or drops it when it
  turns idle; an idle player stays idle until \<^verbatim>\<open>play\<close> is called.
\<close>

fun withStatus :: "AudioPlayerStatus \<Rightarrow> ('ref, 'stream) AudioResource \<Rightarrow> ('ref, 'stream) AudioPlayerState" where
  "withStatus Idle r = IdleState"
| "withStatus Buffering r = BufferingState r"
| "withStatus Paused r = PausedState r"
| "withStatus Playing r = PlayingState r"
| "withStatus AutoPaused r = AutoPausedState r"

definition playerMoves :: "('ref, 'stream) player \<Rightarrow> AudioPlayerStatus \<Rightarrow> ('ref, 'stream) MusicSubscription \<Rightarrow> ('ref, 'stream) MusicSubscription" where
  "playerMoves p st s =
     (if status (audioPlayer s) = Idle then s
      else setState p (withStatus st (resource (audioPlayer s))) s)"

text \<open>What happens to a subscription: calls of its two public methods and moves of its player.\<close>

datatype ('ref, 'stream) Happening =
    Enqueue "('ref, 'stream) Track"
  | Stop
  | PlayerMoves AudioPlayerStatus

fun happen :: "('ref, 'stream) player \<Rightarrow> ('ref, 'stream) Happening \<Rightarrow> ('ref, 'stream) MusicSubscription \<Rightarrow> ('ref, 'stream) MusicSubscription" where
  "happen p (Enqueue track) s = enqueue p track s"
| "happen p Stop s = stop p s"
| "happen p (PlayerMoves st) s = playerMoves p st s"

fun run :: "('ref, 'stream) player \<Rightarrow> ('ref, 'stream) Happening list \<Rightarrow> ('ref, 'stream) MusicSubscription \<Rightarrow> ('ref, 'stream) MusicSubscription" where
  "run p [] s = s"
| "run p (h # hs) s = run p hs (happen p h s)"

fun enqueued :: "('ref, 'stream) Happening list \<Rightarrow> ('ref, 'stream) Track list" where
  "enqueued [] = []"
| "enqueued (Enqueue track # hs) = track # enqueued hs"
| "enqueued (h # hs) = enqueued hs"

text \<open>
  The state between two happenings when nothing has been stopped: the lock is open, an
  idle player has left nothing in the queue, and a busy one holds what it took last.
\<close>

definition orderly :: "('ref, 'stream) MusicSubscription \<Rightarrow> bool" where
  "orderly s \<longleftrightarrow>
     \<not> queueLock s
     \<and> (status (audioPlayer s) = Idle \<longrightarrow> queue s = [])
     \<and> (status (audioPlayer s) \<noteq> Idle \<longrightarrow>
          played s \<noteq> [] \<and> resource (audioPlayer s) = last (played s))"

text \<open>Tests on notifications, to count them in the log.\<close>

fun isSongEnded :: "'ref Notification \<Rightarrow> bool" where
  "isSongEnded (songEnded r d) = True"
| "isSongEnded n = False"

fun isSongStarted :: "'ref Notification \<Rightarrow> bool" where
  "isSongStarted (songStarted r d) = True"
| "isSongStarted n = False"

text \<open>What the listener emits when the player takes the track's resource.\<close>

definition started :: "('ref, 'stream) player \<Rightarrow> ('ref, 'stream) Track \<Rightarrow> 'ref Notification list" where
  "started p t =
     (case audioResource t of
        None \<Rightarrow> []
      | Some r \<Rightarrow>
          (case p r of
             EntersPlaying \<Rightarrow> [songStarted (TrackMetadata.reference (metadata r)) (details (metadata r))]
           | EntersBuffering \<Rightarrow> []
           | Throws error \<Rightarrow> []))"

text \<open>The error a hand-off of the track to the player ends with, if it fails.\<close>

definition handOffError :: "('ref, 'stream) player \<Rightarrow> ('ref, 'stream) Track \<Rightarrow> Error option" where
  "handOffError p t =
     (case audioResource t of
        None \<Rightarrow> Some (TypeError ''Cannot read properties of undefined'')
      | Some r \<Rightarrow> (case p r of Throws error \<Rightarrow> Some error | EntersBuffering \<Rightarrow> None | EntersPlaying \<Rightarrow> None))"

subsection \<open>The listener on the voice connection\<close>

text \<open>
  The listener is \<^verbatim>\<open>async\<close>: on three of its paths it awaits a promise and goes on
  when the promise is settled, and other listeners run in between. Each call is
  therefore two steps. \<open>connectionStateChange\<close> is the listener up to its \<^verbatim>\<open>await\<close>, and
  returns the promise awaited, if any; \<open>resume\<close> is the rest of that path, given
  whether the promise was fulfilled (\<open>True\<close>) or rejected. \<^verbatim>\<open>entersState(c, status, ms)\<close>
  is fulfilled when the connection reaches \<open>status\<close> within \<open>ms\<close> milliseconds and
  rejected when the time runs out; \<^verbatim>\<open>wait(ms)\<close> is fulfilled after \<open>ms\<close> milliseconds.
  The connection answers \<^verbatim>\<open>rejoin()\<close> and \<^verbatim>\<open>destroy()\<close> by state changes of its own,
  which come back through the listener; here the two calls are recorded.
\<close>

datatype Promise = entersState VoiceConnectionStatus nat | wait nat

definition callConnection :: "VoiceConnectionCall \<Rightarrow> ('ref, 'stream) MusicSubscription \<Rightarrow> ('ref, 'stream) MusicSubscription" where
  "callConnection c s =
     s\<lparr> voiceConnection := (voiceConnection s)\<lparr> calls := calls (voiceConnection s) @ [c] \<rparr> \<rparr>"

definition connectionStateChange :: "('ref, 'stream) player \<Rightarrow> VoiceConnectionState \<Rightarrow> VoiceConnectionState \<Rightarrow> ('ref, 'stream) MusicSubscription \<Rightarrow> ('ref, 'stream) MusicSubscription \<times> Promise option" where
  "connectionStateChange p oldState newState s =
     (if connectionStatus newState = Disconnected then
        (if reason newState = WebSocketClose \<and> closeCode newState = Some 4014 then
           (s, Some (entersState Connecting 5000))
         else if rejoinAttempts (voiceConnection s) < 5 then
           (s, Some (wait ((rejoinAttempts (voiceConnection s) + 1) * 5000)))
         else (callConnection destroy s, None))
      else if connectionStatus newState = Destroyed then (stop p s, None)
      else if \<not> readyLock s \<and>
              (connectionStatus newState = Connecting \<or> connectionStatus newState = Signalling) then
        (s\<lparr> readyLock := True \<rparr>, Some (entersState Ready 20000))
      else (s, None))"

fun resume :: "Promise \<Rightarrow> bool \<Rightarrow> ('ref, 'stream) MusicSubscription \<Rightarrow> ('ref, 'stream) MusicSubscription" where
  "resume (entersState Connecting ms) fulfilled s =
     (if fulfilled then s else callConnection destroy s)"
| "resume (wait ms) fulfilled s = callConnection rejoin s"
| "resume (entersState Ready ms) fulfilled s =
     (if fulfilled then s
      else if connectionStatus (state (voiceConnection s)) \<noteq> Destroyed then callConnection destroy s
      else s) \<lparr> readyLock := False \<rparr>"
| "resume (entersState other ms) fulfilled s = s"

text \<open>The connection changes state: it stores the new state and tells the listener.\<close>

definition connectionMoves :: "('ref, 'stream) player \<Rightarrow> VoiceConnectionState \<Rightarrow> ('ref, 'stream) MusicSubscription \<Rightarrow> ('ref, 'stream) MusicSubscription \<times> Promise option" where
  "connectionMoves p newState s =
     connectionStateChange p (state (voiceConnection s)) newState
       (s\<lparr> voiceConnection := (voiceConnection s)\<lparr> state := newState \<rparr> \<rparr>)"

text \<open>
  \<^verbatim>\<open>voiceConnection.subscribe(this.audioPlayer)\<close>, the constructor's last statement: a
  connection that is not destroyed assigns its state anew, with the subscription in
  it, and so tells the listener just registered of its state. \<open>newSubscription\<close> is the
  whole constructor; with a connection still signalling or connecting it returns with
  the ready lock set and the bound awaited.
\<close>

definition subscribe :: "('ref, 'stream) player \<Rightarrow> ('ref, 'stream) MusicSubscription \<Rightarrow> ('ref, 'stream) MusicSubscription \<times> Promise option" where
  "subscribe p s =
     (if connectionStatus (state (voiceConnection s)) = Destroyed then (s, None)
      else connectionMoves p (state (voiceConnection s)) s)"

definition newSubscription :: "('ref, 'stream) player \<Rightarrow> VoiceConnection \<Rightarrow> ('ref, 'stream) MusicSubscription \<times> Promise option" where
  "newSubscription p c = subscribe p (construct c)"

text \<open>The subscription whose connection has made \<open>n\<close> attempts to rejoin.\<close>

definition withAttempts :: "nat \<Rightarrow> ('ref, 'stream) MusicSubscription \<Rightarrow> ('ref, 'stream) MusicSubscription" where
  "withAttempts n s = s\<lparr> voiceConnection := (voiceConnection s)\<lparr> rejoinAttempts := n \<rparr> \<rparr>"

text \<open>
  The listener's calls interleave: a state change may start a wait, and a wait that was
  started earlier may end, in any order. A configuration is the subscription with the
  promises its listener is waiting for; \<open>Settles i fulfilled\<close> settles the \<open>i\<close>-th of them.
\<close>

datatype ConnectionEvent = Moves VoiceConnectionState | Settles nat bool

fun connectionStep :: "('ref, 'stream) player \<Rightarrow> ConnectionEvent \<Rightarrow> ('ref, 'stream) MusicSubscription \<times> Promise list \<Rightarrow> ('ref, 'stream) MusicSubscription \<times> Promise list" where
  "connectionStep p (Moves n) (s, pending) =
     (case connectionMoves p n s of
        (s', None) \<Rightarrow> (s', pending)
      | (s', Some promise) \<Rightarrow> (s', pending @ [promise]))"
| "connectionStep p (Settles i fulfilled) (s, pending) =
     (if i < length pending
      then (resume (pending ! i) fulfilled s, take i pending @ drop (Suc i) pending)
      else (s, pending))"

fun connectionRun :: "('ref, 'stream) player \<Rightarrow> ConnectionEvent list \<Rightarrow> ('ref, 'stream) MusicSubscription \<times> Promise list \<Rightarrow> ('ref, 'stream) MusicSubscription \<times> Promise list" where
  "connectionRun p [] cfg = cfg"
| "connectionRun p (ev # evs) cfg = connectionRun p evs (connectionStep p ev cfg)"

text \<open>The wait that bounds the time to become ready, and what the ready lock says of it.\<close>

fun awaitsReady :: "Promise \<Rightarrow> bool" where
  "awaitsReady (entersState Ready ms) = True"
| "awaitsReady promise = False"

definition guarded :: "('ref, 'stream) MusicSubscription \<times> Promise list \<Rightarrow> bool" where
  "guarded cfg \<longleftrightarrow> length (filter awaitsReady (snd cfg)) = (if readyLock (fst cfg) then 1 else 0)"

subsection \<open>A session to try things on\<close>

text \<open>
  A player that refuses the resource on stream 0, buffers the one on stream 1 and
  starts any other at once; songs numbered by their stream, with the number as the
  caller's reference; a connection that has just been made.
\<close>

definition picky :: "(nat, nat) player" where
  "picky r =
     (if playStream r = 0 then Throws (Error ''Cannot play a resource that has already ended.'')
      else if playStream r = 1 then EntersBuffering
      else EntersPlaying)"

definition about :: TrackMetadataDetails where
  "about = \<lparr> title = ''Song'', duration = durationWrapper everyDigit 65, uploadedBy = ''Artist(artist)'',
             coverArt = ''https://i.ytimg.com/vi/0/default.jpg'' \<rparr>"

definition song :: "nat \<Rightarrow> (nat, nat) Track" where
  "song n = create (\<lambda>q. False) ''song topic'' n ''https://www.youtube.com/watch?v=0'' about n"

definition audio :: "nat \<Rightarrow> (nat, nat) AudioResource" where
  "audio n = \<lparr> playStream = n, metadata = \<lparr> TrackMetadata.reference = n, details = about \<rparr> \<rparr>"

definition link :: VoiceConnection where
  "link = \<lparr> state = SignallingState, rejoinAttempts = 0, calls = [] \<rparr>"

definition session :: "(nat, nat) MusicSubscription" where
  "session = construct link"

section \<open>How a hand-off ends\<close>

lemma stateChange_active:
  "status n \<noteq> Idle \<Longrightarrow> stateChange p old n s =
     (if status n = Playing
      then emit (songStarted (TrackMetadata.reference (metadata (resource n))) (details (metadata (resource n)))) s
      else s)"
  by (simp add: stateChange.simps)

lemma play_Throws: "p r = Throws e \<Longrightarrow> play p (Some r) s = Inl e"
  by (simp add: play.simps)

lemma play_EntersBuffering:
  "p r = EntersBuffering \<Longrightarrow>
     play p (Some r) s = Inr (s\<lparr> played := played s @ [r], audioPlayer := BufferingState r \<rparr>)"
  by (simp add: play.simps setState.simps stateChange_active)

lemma play_EntersPlaying:
  "p r = EntersPlaying \<Longrightarrow>
     play p (Some r) s =
       Inr (emit (songStarted (TrackMetadata.reference (metadata r)) (details (metadata r)))
              (s\<lparr> played := played s @ [r], audioPlayer := PlayingState r \<rparr>))"
  by (simp add: play.simps setState.simps stateChange_active)

lemma play_fails: "play p (audioResource t) s = Inl e \<longleftrightarrow> handOffError p t = Some e"
  by (auto simp: handOffError_def play.simps split: option.splits PlayOutcome.splits)

lemma handOff_accepted:
  "handOffError p t = None \<longleftrightarrow>
     (\<exists>r. audioResource t = Some r \<and> (p r = EntersBuffering \<or> p r = EntersPlaying))"
  by (auto simp: handOffError_def split: option.splits PlayOutcome.splits)

lemma processQueue_blocked:
  "queueLock s \<or> status (audioPlayer s) \<noteq> Idle \<or> queue s = [] \<Longrightarrow> processQueue p s = s"
  by (subst processQueue.simps) auto

lemma processQueue_skip:
  assumes "\<not> queueLock s" "status (audioPlayer s) = Idle" "queue s = t # ts"
    and "handOffError p t = Some e"
  shows "processQueue p s =
     processQueue p (s\<lparr> queue := ts,
        emitted := emitted s @
          [playingError (map_option (\<lambda>r. TrackMetadata.reference (metadata r)) (audioResource t)) e],
        queueLock := False \<rparr>)"
proof -
  have "play p (audioResource t) (s\<lparr> queueLock := True, queue := ts \<rparr>) = Inl e"
    using assms(4) by (simp add: play_fails)
  then show ?thesis
    using assms(1-3) by (subst processQueue.simps) (simp add: emit_def)
qed

lemma processQueue_buffering:
  assumes "\<not> queueLock s" "status (audioPlayer s) = Idle" "queue s = t # ts"
    and "audioResource t = Some r" "p r = EntersBuffering"
  shows "processQueue p s =
     s\<lparr> queue := ts, played := played s @ [r], audioPlayer := BufferingState r, queueLock := False \<rparr>"
  using assms by (subst processQueue.simps) (simp add: play_EntersBuffering)

lemma processQueue_playing:
  assumes "\<not> queueLock s" "status (audioPlayer s) = Idle" "queue s = t # ts"
    and "audioResource t = Some r" "p r = EntersPlaying"
  shows "processQueue p s =
     s\<lparr> queue := ts, played := played s @ [r], audioPlayer := PlayingState r,
        emitted := emitted s @ [songStarted (TrackMetadata.reference (metadata r)) (details (metadata r))],
        queueLock := False \<rparr>"
  using assms by (subst processQueue.simps) (simp add: play_EntersPlaying emit_def)

lemma processQueue_accepts:
  assumes "\<not> queueLock s" "status (audioPlayer s) = Idle" "queue s = t # ts"
    and "handOffError p t = None"
  shows "\<exists>r. audioResource t = Some r \<and> queue (processQueue p s) = ts \<and> \<not> queueLock (processQueue p s)
     \<and> played (processQueue p s) = played s @ [r]
     \<and> audioPlayer (processQueue p s) = (if p r = EntersPlaying then PlayingState r else BufferingState r)
     \<and> emitted (processQueue p s) = emitted s @
          (if p r = EntersPlaying
           then [songStarted (TrackMetadata.reference (metadata r)) (details (metadata r))] else [])
     \<and> voiceConnection (processQueue p s) = voiceConnection s
     \<and> readyLock (processQueue p s) = readyLock s"
proof -
  from assms(4) obtain r
    where r: "audioResource t = Some r" "p r = EntersBuffering \<or> p r = EntersPlaying"
    by (auto simp: handOff_accepted)
  from r(2) show ?thesis
  proof
    assume "p r = EntersBuffering"
    then show ?thesis using processQueue_buffering [OF assms(1-3) r(1)] r(1) by simp
  next
    assume "p r = EntersPlaying"
    then show ?thesis using processQueue_playing [OF assms(1-3) r(1)] r(1) by simp
  qed
qed

lemma processQueue_shorter: "length (queue (processQueue p s)) \<le> length (queue s)"
proof (induction "queue s" arbitrary: s)
  case Nil
  then show ?case by (simp add: processQueue_blocked)
next
  case (Cons t ts)
  show ?case
  proof (cases "queueLock s \<or> status (audioPlayer s) \<noteq> Idle")
    case True
    then show ?thesis by (auto simp: processQueue_blocked)
  next
    case False
    then have g: "\<not> queueLock s" "status (audioPlayer s) = Idle" "queue s = t # ts"
      using Cons(2) by auto
    show ?thesis
    proof (cases "handOffError p t")
      case None
      from processQueue_accepts [OF g None] show ?thesis using g(3) by auto
    next
      case (Some e)
      let ?s' = "s\<lparr> queue := ts,
        emitted := emitted s @
          [playingError (map_option (\<lambda>r. TrackMetadata.reference (metadata r)) (audioResource t)) e],
        queueLock := False \<rparr>"
      have "length (queue (processQueue p ?s')) \<le> length (queue ?s')"
        by (rule Cons(1)) simp
      then show ?thesis using processQueue_skip [OF g Some] g(3) by simp
    qed
  qed
qed

lemma processQueue_strictly_shorter:
  assumes "\<not> queueLock s" "status (audioPlayer s) = Idle" "queue s \<noteq> []"
  shows "length (queue (processQueue p s)) < length (queue s)"
proof -
  from assms(3) obtain t ts where q: "queue s = t # ts" by (cases "queue s") auto
  show ?thesis
  proof (cases "handOffError p t")
    case None
    from processQueue_accepts [OF assms(1,2) q None] show ?thesis using q by auto
  next
    case (Some e)
    let ?s' = "s\<lparr> queue := ts,
        emitted := emitted s @
          [playingError (map_option (\<lambda>r. TrackMetadata.reference (metadata r)) (audioResource t)) e],
        queueLock := False \<rparr>"
    have "length (queue (processQueue p ?s')) \<le> length (queue ?s')"
      by (rule processQueue_shorter)
    then show ?thesis using processQueue_skip [OF assms(1,2) q Some] q by simp
  qed
qed

lemma created_context:
  "created t \<Longrightarrow> map_option (\<lambda>r. TrackMetadata.reference (metadata r)) (audioResource t) = Some (Track.reference t)"
  by (auto simp: created_def split: option.splits)

lemma created_create: "created (create isURL q r u d st)"
  by (simp add: created_def create_def)

lemma song_resource: "audioResource (song n) = Some (audio n)"
  by (simp add: song_def create_def audio_def)

lemma song_accepted: "0 < n \<Longrightarrow> handOffError picky (song n) = None"
  by (simp add: handOffError_def song_resource picky_def audio_def)

lemma song_refused:
  "handOffError picky (song 0) = Some (Error ''Cannot play a resource that has already ended.'')"
  by (simp add: handOffError_def song_resource picky_def audio_def)

lemma song_created: "created (song n)"
  by (simp add: song_def created_create)

text \<open>
  C2. \<open>processQueue\<close> returns the subscription as it found it exactly when the queue
  lock is set, or the queue is empty, or the player is not idle. In any other state it
  runs its body: it sets the lock and takes the head off the queue, and the state in
  which the player is given the head's resource has both; if the player takes the
  resource, the lock is cleared again, the queue is the old tail, and the player holds
  the resource of the head.
\<close>

theorem processQueue_drain:
  "(processQueue p s = s \<longleftrightarrow> queueLock s \<or> queue s = [] \<or> status (audioPlayer s) \<noteq> Idle)
   \<and> (\<not> queueLock s \<and> status (audioPlayer s) = Idle \<and> queue s = t # ts \<longrightarrow>
        processQueue p s =
          (case play p (audioResource t) (s\<lparr> queueLock := True, queue := ts \<rparr>) of
             Inr s' \<Rightarrow> s'\<lparr> queueLock := False \<rparr>
           | Inl error \<Rightarrow>
               processQueue p (s\<lparr> queue := ts,
                 emitted := emitted s @
                   [playingError (map_option (\<lambda>r. TrackMetadata.reference (metadata r)) (audioResource t)) error],
                 queueLock := False \<rparr>)))
   \<and> (\<not> queueLock s \<and> status (audioPlayer s) = Idle \<and> queue s = t # ts \<and> handOffError p t = None \<longrightarrow>
        (\<exists>s'. play p (audioResource t) (s\<lparr> queueLock := True, queue := ts \<rparr>) = Inr s'
              \<and> queueLock s' \<and> queue s' = ts
              \<and> processQueue p s = s'\<lparr> queueLock := False \<rparr>)
        \<and> queue (processQueue p s) = ts
        \<and> \<not> queueLock (processQueue p s)
        \<and> status (audioPlayer (processQueue p s)) \<noteq> Idle
        \<and> audioResource t = Some (resource (audioPlayer (processQueue p s)))
        \<and> played (processQueue p s) = played s @ [resource (audioPlayer (processQueue p s))])"
proof -
  have noop: "processQueue p s = s \<longleftrightarrow> queueLock s \<or> queue s = [] \<or> status (audioPlayer s) \<noteq> Idle"
  proof
    assume same: "processQueue p s = s"
    show "queueLock s \<or> queue s = [] \<or> status (audioPlayer s) \<noteq> Idle"
    proof (rule ccontr)
      assume "\<not> ?thesis"
      then have "length (queue (processQueue p s)) < length (queue s)"
        by (intro processQueue_strictly_shorter) auto
      with same show False by simp
    qed
  next
    assume "queueLock s \<or> queue s = [] \<or> status (audioPlayer s) \<noteq> Idle"
    then show "processQueue p s = s" by (auto simp: processQueue_blocked)
  qed
  have body: "processQueue p s =
          (case play p (audioResource t) (s\<lparr> queueLock := True, queue := ts \<rparr>) of
             Inr s' \<Rightarrow> s'\<lparr> queueLock := False \<rparr>
           | Inl error \<Rightarrow>
               processQueue p (s\<lparr> queue := ts,
                 emitted := emitted s @
                   [playingError (map_option (\<lambda>r. TrackMetadata.reference (metadata r)) (audioResource t)) error],
                 queueLock := False \<rparr>))"
    if "\<not> queueLock s \<and> status (audioPlayer s) = Idle \<and> queue s = t # ts"
    using that by (subst processQueue.simps) (simp add: emit_def split: sum.splits)
  have handed: "(\<exists>s'. play p (audioResource t) (s\<lparr> queueLock := True, queue := ts \<rparr>) = Inr s'
              \<and> queueLock s' \<and> queue s' = ts
              \<and> processQueue p s = s'\<lparr> queueLock := False \<rparr>)
        \<and> queue (processQueue p s) = ts
        \<and> \<not> queueLock (processQueue p s)
        \<and> status (audioPlayer (processQueue p s)) \<noteq> Idle
        \<and> audioResource t = Some (resource (audioPlayer (processQueue p s)))
        \<and> played (processQueue p s) = played s @ [resource (audioPlayer (processQueue p s))]"
    if g: "\<not> queueLock s \<and> status (audioPlayer s) = Idle \<and> queue s = t # ts \<and> handOffError p t = None"
  proof -
    from g have g': "\<not> queueLock s" "status (audioPlayer s) = Idle" "queue s = t # ts"
      and ok: "handOffError p t = None" by simp_all
    from processQueue_accepts [OF g' ok] obtain r where
      a: "audioResource t = Some r" "queue (processQueue p s) = ts" "\<not> queueLock (processQueue p s)"
         "played (processQueue p s) = played s @ [r]"
         "audioPlayer (processQueue p s) = (if p r = EntersPlaying then PlayingState r else BufferingState r)"
      by blast
    have res: "resource (audioPlayer (processQueue p s)) = r" "status (audioPlayer (processQueue p s)) \<noteq> Idle"
      by (simp_all add: a(5))
    from ok a(1) have "p r = EntersBuffering \<or> p r = EntersPlaying"
      by (auto simp: handOff_accepted)
    then have "\<exists>s'. play p (audioResource t) (s\<lparr> queueLock := True, queue := ts \<rparr>) = Inr s'
              \<and> queueLock s' \<and> queue s' = ts
              \<and> processQueue p s = s'\<lparr> queueLock := False \<rparr>"
    proof
      assume b: "p r = EntersBuffering"
      show ?thesis
        using g' a(1) b by (subst processQueue.simps) (simp add: play_EntersBuffering)
    next
      assume b: "p r = EntersPlaying"
      show ?thesis
        using g' a(1) b by (subst processQueue.simps) (simp add: play_EntersPlaying emit_def)
    qed
    then show ?thesis using a(1-4) res by simp
  qed
  show ?thesis
    using noop body handed by blast
qed

theorem processQueue_drain_witness:
  "\<not> queueLock (session\<lparr> queue := [song 2] \<rparr>)
   \<and> status (audioPlayer (session\<lparr> queue := [song 2] \<rparr>)) = Idle
   \<and> queue (session\<lparr> queue := [song 2] \<rparr>) = [song 2]
   \<and> handOffError picky (song 2) = None
   \<and> processQueue picky (session\<lparr> queue := [song 2] \<rparr>) \<noteq> session\<lparr> queue := [song 2] \<rparr>
   \<and> queue (processQueue picky (session\<lparr> queue := [song 2] \<rparr>)) = []
   \<and> \<not> queueLock (processQueue picky (session\<lparr> queue := [song 2] \<rparr>))
   \<and> audioResource (song 2) = Some (resource (audioPlayer (processQueue picky (session\<lparr> queue := [song 2] \<rparr>))))"
proof -
  let ?s = "session\<lparr> queue := [song 2] \<rparr>"
  have h: "handOffError picky (song 2) = None" by (simp add: song_accepted)
  have g: "\<not> queueLock ?s" "status (audioPlayer ?s) = Idle" "queue ?s = [song 2]"
    by (simp_all add: session_def construct_def)
  note w = processQueue_drain [of picky ?s "song 2" "[]"]
  have pre: "\<not> queueLock ?s \<and> status (audioPlayer ?s) = Idle \<and> queue ?s = [song 2]
      \<and> handOffError picky (song 2) = None"
    using g h by (intro conjI)
  note handed = w [THEN conjunct2, THEN conjunct2, THEN mp, OF pre, THEN conjunct2]
  have moved: "processQueue picky ?s \<noteq> ?s"
    using w [THEN conjunct1] g by simp
  show ?thesis
    using g h moved handed by simp
qed

lemma processQueue_skips:
  assumes "\<not> queueLock s" "status (audioPlayer s) = Idle" "queue s = fs @ rest"
    and "\<forall>t\<in>set fs. created t \<and> handOffError p t = Some (err t)"
  shows "processQueue p s =
     processQueue p (s\<lparr> queue := rest,
        emitted := emitted s @ map (\<lambda>t. playingError (Some (Track.reference t)) (err t)) fs,
        queueLock := False \<rparr>)"
  using assms
proof (induction fs arbitrary: s)
  case Nil
  then have "s\<lparr> queue := rest, emitted := emitted s, queueLock := False \<rparr> = s"
    by simp
  then show ?case by simp
next
  case (Cons f fs)
  let ?s' = "s\<lparr> queue := fs @ rest,
        emitted := emitted s @ [playingError (Some (Track.reference f)) (err f)],
        queueLock := False \<rparr>"
  from Cons.prems have f: "created f" "handOffError p f = Some (err f)" by simp_all
  have "processQueue p s = processQueue p ?s'"
    using processQueue_skip [OF Cons.prems(1,2) _ f(2), of "fs @ rest"] Cons.prems(3)
    by (simp add: created_context [OF f(1)])
  also have "\<dots> = processQueue p (?s'\<lparr> queue := rest,
        emitted := emitted ?s' @ map (\<lambda>t. playingError (Some (Track.reference t)) (err t)) fs,
        queueLock := False \<rparr>)"
    using Cons.prems by (intro Cons.IH) simp_all
  finally show ?case by simp
qed

text \<open>
  C3. Let the queue of an unlocked subscription with an idle player begin with the items
  \<open>fs\<close>, each built by \<open>create\<close> and each refused by the player, \<open>err t\<close> being the
  error for \<open>t\<close>. Then \<open>processQueue\<close> goes on as \<open>processQueue\<close> of the subscription
  without them, the lock cleared: every one of them has cost the queue one item and
  has added one \<open>playingError\<close> with its own \<open>reference\<close> and its error, in queue order.
  The item after them is handed to the player, and the queue that remains is what
  followed it, so no refused item is in the queue again.
\<close>

theorem playingError_per_failure:
  assumes "\<not> queueLock s" and "status (audioPlayer s) = Idle" and "queue s = fs @ rest"
    and "\<forall>t\<in>set fs. created t \<and> handOffError p t = Some (err t)"
    and "rest \<noteq> [] \<longrightarrow> handOffError p (hd rest) = None"
  shows "processQueue p s =
           processQueue p (s\<lparr> queue := rest,
             emitted := emitted s @ map (\<lambda>t. playingError (Some (Track.reference t)) (err t)) fs,
             queueLock := False \<rparr>)
     \<and> emitted (processQueue p s) =
           emitted s @ map (\<lambda>t. playingError (Some (Track.reference t)) (err t)) fs
                     @ concat (map (started p) (take 1 rest))
     \<and> map Some (played (processQueue p s)) = map Some (played s) @ map audioResource (take 1 rest)
     \<and> queue (processQueue p s) = drop 1 rest
     \<and> length (queue (processQueue p s)) + length fs + length (take 1 rest) = length (queue s)
     \<and> \<not> queueLock (processQueue p s)"
proof -
  let ?s' = "s\<lparr> queue := rest,
             emitted := emitted s @ map (\<lambda>t. playingError (Some (Track.reference t)) (err t)) fs,
             queueLock := False \<rparr>"
  have skip: "processQueue p s = processQueue p ?s'"
    by (rule processQueue_skips [OF assms(1-4)])
  have "emitted (processQueue p s) =
           emitted s @ map (\<lambda>t. playingError (Some (Track.reference t)) (err t)) fs
                     @ concat (map (started p) (take 1 rest))
     \<and> map Some (played (processQueue p s)) = map Some (played s) @ map audioResource (take 1 rest)
     \<and> queue (processQueue p s) = drop 1 rest
     \<and> length (queue (processQueue p s)) + length fs + length (take 1 rest) = length (queue s)
     \<and> \<not> queueLock (processQueue p s)"
  proof (cases rest)
    case Nil
    then have "processQueue p ?s' = ?s'"
      by (simp add: processQueue_blocked)
    with skip have "processQueue p s = ?s'" by simp
    then show ?thesis using Nil assms(3) by simp
  next
    case (Cons t ts)
    with assms(5) have ok: "handOffError p t = None" by simp
    have g: "\<not> queueLock ?s'" "status (audioPlayer ?s') = Idle" "queue ?s' = t # ts"
      using assms(2) Cons by simp_all
    from processQueue_accepts [OF g ok] obtain r where
      a: "audioResource t = Some r" "queue (processQueue p ?s') = ts" "\<not> queueLock (processQueue p ?s')"
         "played (processQueue p ?s') = played ?s' @ [r]"
         "emitted (processQueue p ?s') = emitted ?s' @
          (if p r = EntersPlaying
           then [songStarted (TrackMetadata.reference (metadata r)) (details (metadata r))] else [])"
      by blast
    from ok a(1) have "p r = EntersBuffering \<or> p r = EntersPlaying"
      by (auto simp: handOff_accepted)
    then have st: "started p t = (if p r = EntersPlaying
           then [songStarted (TrackMetadata.reference (metadata r)) (details (metadata r))] else [])"
      using a(1) by (auto simp: started_def)
    note b = a(2-5) [folded skip]
    show ?thesis
      using a(1) b Cons assms(3) by (simp add: st)
  qed
  with skip show ?thesis by (rule conjI)
qed

theorem playingError_per_failure_witness:
  "\<not> queueLock (session\<lparr> queue := [song 0, song 3] \<rparr>)
   \<and> status (audioPlayer (session\<lparr> queue := [song 0, song 3] \<rparr>)) = Idle
   \<and> created (song 0)
   \<and> handOffError picky (song 0) = Some (Error ''Cannot play a resource that has already ended.'')
   \<and> handOffError picky (song 3) = None
   \<and> emitted (processQueue picky (session\<lparr> queue := [song 0, song 3] \<rparr>)) =
        [playingError (Some 0) (Error ''Cannot play a resource that has already ended.''),
         songStarted 3 about]
   \<and> queue (processQueue picky (session\<lparr> queue := [song 0, song 3] \<rparr>)) = []"
proof -
  let ?s = "session\<lparr> queue := [song 0, song 3] \<rparr>"
  have g: "\<not> queueLock ?s" "status (audioPlayer ?s) = Idle" "queue ?s = [song 0] @ [song 3]"
    by (simp_all add: session_def construct_def)
  have c: "created (song 0)" by (simp add: created_def song_def create_def)
  have f: "handOffError picky (song 0) = Some (Error ''Cannot play a resource that has already ended.'')"
    by (rule song_refused)
  have a: "handOffError picky (song 3) = None" by (simp add: song_accepted)
  have fs: "\<forall>t\<in>set [song 0]. created t \<and>
      handOffError picky t = Some ((\<lambda>t. Error ''Cannot play a resource that has already ended.'') t)"
    using c f by simp
  have rest: "[song 3] \<noteq> [] \<longrightarrow> handOffError picky (hd [song 3]) = None"
    using a by simp
  have e: "emitted ?s = []" by (simp add: session_def construct_def)
  have r0: "Track.reference (song 0) = 0" by (simp add: song_def create_def)
  have st: "started picky (song 3) = [songStarted 3 about]"
    by (simp add: started_def song_resource picky_def audio_def)
  note w = playingError_per_failure [OF g fs rest]
  have em: "emitted (processQueue picky ?s) =
        [playingError (Some 0) (Error ''Cannot play a resource that has already ended.''),
         songStarted 3 about]"
    using w [THEN conjunct2, THEN conjunct1] by (simp add: e r0 st)
  have qu: "queue (processQueue picky ?s) = []"
    using w [THEN conjunct2, THEN conjunct2, THEN conjunct2, THEN conjunct1] by simp
  show ?thesis
    using g(1,2) c f a em qu by simp
qed

lemma processQueue_log:
  "filter isSongEnded (emitted (processQueue p s)) = filter isSongEnded (emitted s)
   \<and> filter isSongStarted (emitted (processQueue p s)) =
       filter isSongStarted (emitted s) @
         (if played (processQueue p s) \<noteq> played s \<and> status (audioPlayer (processQueue p s)) = Playing
          then [songStarted (TrackMetadata.reference (metadata (resource (audioPlayer (processQueue p s)))))
                            (details (metadata (resource (audioPlayer (processQueue p s)))))]
          else [])"
proof (induction "queue s" arbitrary: s)
  case Nil
  then show ?case by (simp add: processQueue_blocked)
next
  case (Cons t ts)
  show ?case
  proof (cases "queueLock s \<or> status (audioPlayer s) \<noteq> Idle")
    case True
    then have "processQueue p s = s" by (auto simp: processQueue_blocked)
    then show ?thesis by simp
  next
    case False
    then have g: "\<not> queueLock s" "status (audioPlayer s) = Idle" "queue s = t # ts"
      using Cons(2) by auto
    show ?thesis
    proof (cases "handOffError p t")
      case None
      from processQueue_accepts [OF g None] obtain r where
        a: "played (processQueue p s) = played s @ [r]"
         "audioPlayer (processQueue p s) = (if p r = EntersPlaying then PlayingState r else BufferingState r)"
         "emitted (processQueue p s) = emitted s @
          (if p r = EntersPlaying
           then [songStarted (TrackMetadata.reference (metadata r)) (details (metadata r))] else [])"
        by blast
      show ?thesis by (simp add: a)
    next
      case (Some e)
      let ?s' = "s\<lparr> queue := ts,
        emitted := emitted s @
          [playingError (map_option (\<lambda>r. TrackMetadata.reference (metadata r)) (audioResource t)) e],
        queueLock := False \<rparr>"
      have eq: "processQueue p s = processQueue p ?s'"
        by (rule processQueue_skip [OF g Some])
      have "ts = queue ?s'" by simp
      from Cons(1) [OF this] show ?thesis
        unfolding eq by simp
    qed
  qed
qed

text \<open>
  C9. The player's listener, told of a change from \<open>old\<close> to \<open>n\<close>: if \<open>n\<close> is playing it
  emits \<open>songStarted\<close>; if \<open>n\<close> is idle and \<open>old\<close> was not, it emits \<open>songEnded\<close> and runs
  \<open>processQueue\<close>; otherwise it does nothing. So the log gains one \<open>songEnded\<close> exactly
  on a change from a state that is not idle to the idle one, and one \<open>songStarted\<close>
  exactly on a change into playing: the one reported or, where the drain hands the
  next item over and the player starts it at once, that one. Each carries the
  \<open>reference\<close> and the \<open>details\<close> in the metadata of the resource concerned, which for
  an item built by \<open>create\<close> is the item's own \<open>reference\<close>. When the player turns idle
  and the queue holds an item the player will take, the item leaves the queue and the
  player holds its resource.
\<close>

theorem stateChange_notifies:
  "(status n = Playing \<longrightarrow>
      stateChange p old n s =
        s\<lparr> emitted := emitted s @
           [songStarted (TrackMetadata.reference (metadata (resource n))) (details (metadata (resource n)))] \<rparr>)
   \<and> (status n = Idle \<and> status old \<noteq> Idle \<longrightarrow>
      stateChange p old n s =
        processQueue p (s\<lparr> emitted := emitted s @
           [songEnded (TrackMetadata.reference (metadata (resource old))) (details (metadata (resource old)))] \<rparr>))
   \<and> (status n \<noteq> Playing \<and> (status n = Idle \<longrightarrow> status old = Idle) \<longrightarrow> stateChange p old n s = s)
   \<and> filter isSongEnded (emitted (stateChange p old n s)) =
        filter isSongEnded (emitted s) @
          (if status n = Idle \<and> status old \<noteq> Idle
           then [songEnded (TrackMetadata.reference (metadata (resource old))) (details (metadata (resource old)))]
           else [])
   \<and> filter isSongStarted (emitted (stateChange p old n s)) =
        filter isSongStarted (emitted s) @
          (if status n = Playing
           then [songStarted (TrackMetadata.reference (metadata (resource n))) (details (metadata (resource n)))]
           else if played (stateChange p old n s) \<noteq> played s
                   \<and> status (audioPlayer (stateChange p old n s)) = Playing
           then [songStarted (TrackMetadata.reference (metadata (resource (audioPlayer (stateChange p old n s)))))
                             (details (metadata (resource (audioPlayer (stateChange p old n s)))))]
           else [])
   \<and> (\<forall>t r. created t \<and> audioResource t = Some r \<longrightarrow>
         TrackMetadata.reference (metadata r) = Track.reference t)
   \<and> (status n = Idle \<and> status old \<noteq> Idle \<and> audioPlayer s = n \<and> \<not> queueLock s
        \<and> queue s = t # ts \<and> handOffError p t = None \<longrightarrow>
         queue (stateChange p old n s) = ts
         \<and> audioResource t = Some (resource (audioPlayer (stateChange p old n s)))
         \<and> status (audioPlayer (stateChange p old n s)) \<noteq> Idle)"
proof -
  let ?ended = "s\<lparr> emitted := emitted s @
           [songEnded (TrackMetadata.reference (metadata (resource old))) (details (metadata (resource old)))] \<rparr>"
  have playing: "stateChange p old n s =
        s\<lparr> emitted := emitted s @
           [songStarted (TrackMetadata.reference (metadata (resource n))) (details (metadata (resource n)))] \<rparr>"
    if "status n = Playing"
    using that by (simp add: stateChange.simps emit_def)
  have ended: "stateChange p old n s = processQueue p ?ended"
    if "status n = Idle \<and> status old \<noteq> Idle"
    using that by (simp add: stateChange.simps emit_def)
  have other: "stateChange p old n s = s"
    if "status n \<noteq> Playing \<and> (status n = Idle \<longrightarrow> status old = Idle)"
    using that by (auto simp add: stateChange.simps)
  have log1: "filter isSongEnded (emitted (stateChange p old n s)) =
        filter isSongEnded (emitted s) @
          (if status n = Idle \<and> status old \<noteq> Idle
           then [songEnded (TrackMetadata.reference (metadata (resource old))) (details (metadata (resource old)))]
           else [])"
  proof (cases "status n = Idle \<and> status old \<noteq> Idle")
    case True
    show ?thesis
      unfolding ended [OF True] using True processQueue_log [of p ?ended] by simp
  next
    case False
    then show ?thesis
      by (cases "status n = Playing") (auto simp: playing other)
  qed
  have log2: "filter isSongStarted (emitted (stateChange p old n s)) =
        filter isSongStarted (emitted s) @
          (if status n = Playing
           then [songStarted (TrackMetadata.reference (metadata (resource n))) (details (metadata (resource n)))]
           else if played (stateChange p old n s) \<noteq> played s
                   \<and> status (audioPlayer (stateChange p old n s)) = Playing
           then [songStarted (TrackMetadata.reference (metadata (resource (audioPlayer (stateChange p old n s)))))
                             (details (metadata (resource (audioPlayer (stateChange p old n s)))))]
           else [])"
  proof (cases "status n = Idle \<and> status old \<noteq> Idle")
    case True
    show ?thesis
      unfolding ended [OF True] using True processQueue_log [of p ?ended] by simp
  next
    case False
    then show ?thesis
      by (cases "status n = Playing") (auto simp: playing other)
  qed
  have ctx: "\<forall>t r. created t \<and> audioResource t = Some r \<longrightarrow>
         TrackMetadata.reference (metadata r) = Track.reference t"
    by (auto simp: created_def)
  have advance: "queue (stateChange p old n s) = ts
         \<and> audioResource t = Some (resource (audioPlayer (stateChange p old n s)))
         \<and> status (audioPlayer (stateChange p old n s)) \<noteq> Idle"
    if h: "status n = Idle \<and> status old \<noteq> Idle \<and> audioPlayer s = n \<and> \<not> queueLock s
        \<and> queue s = t # ts \<and> handOffError p t = None"
  proof -
    have g: "\<not> queueLock ?ended" "status (audioPlayer ?ended) = Idle" "queue ?ended = t # ts"
      using h by simp_all
    from h have ok: "handOffError p t = None" by simp
    from processQueue_accepts [OF g ok] obtain r where
      a: "audioResource t = Some r" "queue (processQueue p ?ended) = ts"
         "audioPlayer (processQueue p ?ended) = (if p r = EntersPlaying then PlayingState r else BufferingState r)"
      by blast
    from h have "stateChange p old n s = processQueue p ?ended" by (intro ended) simp
    then show ?thesis using a by simp
  qed
  show ?thesis
    using playing ended other log1 log2 ctx advance by blast
qed

theorem stateChange_notifies_witness:
  "status (PlayingState (audio 2)) = Playing
   \<and> stateChange picky (BufferingState (audio 2)) (PlayingState (audio 2)) (session\<lparr> audioPlayer := PlayingState (audio 2) \<rparr>) =
       session\<lparr> audioPlayer := PlayingState (audio 2), emitted := [songStarted 2 about] \<rparr>
   \<and> status (PausedState (audio 2)) \<noteq> Playing \<and> status (PausedState (audio 2)) \<noteq> Idle
   \<and> stateChange picky (PlayingState (audio 2)) (PausedState (audio 2)) (session\<lparr> audioPlayer := PausedState (audio 2) \<rparr>) =
       session\<lparr> audioPlayer := PausedState (audio 2) \<rparr>
   \<and> created (song 2) \<and> audioResource (song 2) = Some (audio 2)
   \<and> TrackMetadata.reference (metadata (audio 2)) = Track.reference (song 2)
   \<and> status (IdleState :: (nat, nat) AudioPlayerState) = Idle \<and> status (PlayingState (audio 2)) \<noteq> Idle
   \<and> audioPlayer (session\<lparr> queue := [song 3] \<rparr>) = IdleState
   \<and> \<not> queueLock (session\<lparr> queue := [song 3] \<rparr>)
   \<and> queue (session\<lparr> queue := [song 3] \<rparr>) = [song 3]
   \<and> handOffError picky (song 3) = None
   \<and> queue (stateChange picky (PlayingState (audio 2)) IdleState (session\<lparr> queue := [song 3] \<rparr>)) = []
   \<and> audioResource (song 3) =
        Some (resource (audioPlayer (stateChange picky (PlayingState (audio 2)) IdleState (session\<lparr> queue := [song 3] \<rparr>))))
   \<and> filter isSongEnded (emitted (stateChange picky (PlayingState (audio 2)) IdleState (session\<lparr> queue := [song 3] \<rparr>))) =
        [songEnded 2 about]"
proof -
  let ?playing = "session\<lparr> audioPlayer := PlayingState (audio 2) \<rparr>"
  let ?paused = "session\<lparr> audioPlayer := PausedState (audio 2) \<rparr>"
  let ?next = "session\<lparr> queue := [song 3] \<rparr>"
  note w1 = stateChange_notifies [of "PlayingState (audio 2)" picky "BufferingState (audio 2)" ?playing]
  note w2 = stateChange_notifies [of "PausedState (audio 2)" picky "PlayingState (audio 2)" ?paused]
  note w3 = stateChange_notifies [of IdleState picky "PlayingState (audio 2)" ?next "song 3" "[]"]
  have e: "emitted session = []" by (simp add: session_def construct_def)
  have a: "stateChange picky (BufferingState (audio 2)) (PlayingState (audio 2)) ?playing =
       session\<lparr> audioPlayer := PlayingState (audio 2), emitted := [songStarted 2 about] \<rparr>"
    using w1 [THEN conjunct1] by (simp add: e audio_def)
  have b: "stateChange picky (PlayingState (audio 2)) (PausedState (audio 2)) ?paused = ?paused"
    using w2 [THEN conjunct2, THEN conjunct2, THEN conjunct1] by simp
  have c: "created (song 2)" "audioResource (song 2) = Some (audio 2)"
    by (simp_all add: song_created song_resource)
  have d: "TrackMetadata.reference (metadata (audio 2)) = Track.reference (song 2)"
    using w1 [THEN conjunct2, THEN conjunct2, THEN conjunct2, THEN conjunct2, THEN conjunct2, THEN conjunct1,
              THEN spec, THEN spec, THEN mp, OF conjI, OF c] .
  have ok: "handOffError picky (song 3) = None" by (simp add: song_accepted)
  have pre: "status (IdleState :: (nat, nat) AudioPlayerState) = Idle \<and> status (PlayingState (audio 2)) \<noteq> Idle
      \<and> audioPlayer ?next = IdleState \<and> \<not> queueLock ?next \<and> queue ?next = [song 3]
      \<and> handOffError picky (song 3) = None"
    using ok by (simp add: session_def construct_def)
  note adv = w3 [THEN conjunct2, THEN conjunct2, THEN conjunct2, THEN conjunct2, THEN conjunct2, THEN conjunct2,
                 THEN mp, OF pre]
  have f: "filter isSongEnded (emitted (stateChange picky (PlayingState (audio 2)) IdleState ?next)) =
        [songEnded 2 about]"
    using w3 [THEN conjunct2, THEN conjunct2, THEN conjunct2, THEN conjunct1] by (simp add: e audio_def)
  show ?thesis
    using a b c d pre adv f by simp
qed

section \<open>Order of play\<close>

lemma resource_withStatus: "st \<noteq> Idle \<Longrightarrow> resource (withStatus st r) = r"
  by (cases st) simp_all

lemma status_withStatus: "status (withStatus st r) = st"
  by (cases st) simp_all

lemma processQueue_orderly:
  assumes "\<not> queueLock s" and "\<forall>t\<in>set (queue s). handOffError p t = None"
    and "status (audioPlayer s) \<noteq> Idle \<longrightarrow> played s \<noteq> [] \<and> resource (audioPlayer s) = last (played s)"
  shows "orderly (processQueue p s)
       \<and> map Some (played (processQueue p s)) @ map audioResource (queue (processQueue p s)) =
           map Some (played s) @ map audioResource (queue s)
       \<and> set (queue (processQueue p s)) \<subseteq> set (queue s)"
proof (cases "status (audioPlayer s) \<noteq> Idle \<or> queue s = []")
  case True
  then have "processQueue p s = s" by (auto simp: processQueue_blocked)
  then show ?thesis using assms True by (auto simp: orderly_def)
next
  case False
  then obtain t ts where g: "status (audioPlayer s) = Idle" "queue s = t # ts"
    by (cases "queue s") auto
  with assms(2) have ok: "handOffError p t = None" by simp
  from processQueue_accepts [OF assms(1) g ok] obtain r where
    a: "audioResource t = Some r" "queue (processQueue p s) = ts" "\<not> queueLock (processQueue p s)"
       "played (processQueue p s) = played s @ [r]"
       "audioPlayer (processQueue p s) = (if p r = EntersPlaying then PlayingState r else BufferingState r)"
    by blast
  show ?thesis using a g by (auto simp: orderly_def)
qed

lemma happen_orderly:
  assumes "orderly s" and "\<forall>t\<in>set (queue s). handOffError p t = None"
    and "h \<noteq> Stop" and "\<forall>t\<in>set (enqueued [h]). handOffError p t = None"
  shows "orderly (happen p h s)
       \<and> map Some (played (happen p h s)) @ map audioResource (queue (happen p h s)) =
           map Some (played s) @ map audioResource (queue s) @ map audioResource (enqueued [h])
       \<and> (\<forall>t\<in>set (queue (happen p h s)). handOffError p t = None)"
proof (cases h)
  case (Enqueue t)
  let ?s = "s\<lparr> queue := queue s @ [t] \<rparr>"
  have "orderly (processQueue p ?s)
       \<and> map Some (played (processQueue p ?s)) @ map audioResource (queue (processQueue p ?s)) =
           map Some (played ?s) @ map audioResource (queue ?s)
       \<and> set (queue (processQueue p ?s)) \<subseteq> set (queue ?s)"
    using assms Enqueue by (intro processQueue_orderly) (auto simp: orderly_def)
  then show ?thesis using assms Enqueue by (auto simp: enqueue_def)
next
  case Stop
  with assms(3) show ?thesis by simp
next
  case (PlayerMoves st)
  show ?thesis
  proof (cases "status (audioPlayer s) = Idle")
    case True
    then show ?thesis using assms PlayerMoves by (simp add: playerMoves_def)
  next
    case active: False
    let ?r = "resource (audioPlayer s)"
    show ?thesis
    proof (cases "st = Idle")
      case True
      let ?s = "emit (songEnded (TrackMetadata.reference (metadata ?r)) (details (metadata ?r)))
                  (s\<lparr> audioPlayer := IdleState \<rparr>)"
      have eq: "happen p h s = processQueue p ?s"
        using PlayerMoves True active
        by (simp add: playerMoves_def setState.simps stateChange.simps)
      have "orderly (processQueue p ?s)
       \<and> map Some (played (processQueue p ?s)) @ map audioResource (queue (processQueue p ?s)) =
           map Some (played ?s) @ map audioResource (queue ?s)
       \<and> set (queue (processQueue p ?s)) \<subseteq> set (queue ?s)"
        using assms by (intro processQueue_orderly) (auto simp: orderly_def emit_def)
      then show ?thesis using assms PlayerMoves unfolding eq by (auto simp: emit_def)
    next
      case False
      then have "happen p h s =
          (if st = Playing
           then emit (songStarted (TrackMetadata.reference (metadata ?r)) (details (metadata ?r)))
                  (s\<lparr> audioPlayer := withStatus st ?r \<rparr>)
           else s\<lparr> audioPlayer := withStatus st ?r \<rparr>)"
        using PlayerMoves active
        by (simp add: playerMoves_def setState.simps stateChange_active status_withStatus resource_withStatus)
      then show ?thesis
        using assms PlayerMoves False active
        by (auto simp: orderly_def emit_def status_withStatus resource_withStatus)
    qed
  qed
qed

lemma enqueued_append: "enqueued (h # hs) = enqueued [h] @ enqueued hs"
  by (cases h) simp_all

lemma run_orderly:
  assumes "orderly s" and "\<forall>t\<in>set (queue s). handOffError p t = None"
    and "Stop \<notin> set hs" and "\<forall>t\<in>set (enqueued hs). handOffError p t = None"
  shows "orderly (run p hs s)
       \<and> map Some (played (run p hs s)) @ map audioResource (queue (run p hs s)) =
           map Some (played s) @ map audioResource (queue s) @ map audioResource (enqueued hs)"
  using assms
proof (induction hs arbitrary: s)
  case Nil
  then show ?case by simp
next
  case (Cons h hs)
  have e: "enqueued (h # hs) = enqueued [h] @ enqueued hs" by (rule enqueued_append)
  have step: "orderly (happen p h s)
       \<and> map Some (played (happen p h s)) @ map audioResource (queue (happen p h s)) =
           map Some (played s) @ map audioResource (queue s) @ map audioResource (enqueued [h])
       \<and> (\<forall>t\<in>set (queue (happen p h s)). handOffError p t = None)"
    using Cons.prems by (intro happen_orderly) (auto simp: e)
  have "orderly (run p hs (happen p h s))
       \<and> map Some (played (run p hs (happen p h s))) @ map audioResource (queue (run p hs (happen p h s))) =
           map Some (played (happen p h s)) @ map audioResource (queue (happen p h s))
             @ map audioResource (enqueued hs)"
    using step Cons.prems by (intro Cons.IH) (auto simp: e)
  then show ?case using step by (simp add: e)
qed

text \<open>
  C1. Take a new subscription and any sequence of \<open>enqueue\<close> calls and player moves in
  which the player refuses none of the enqueued items. At the end, the resources the
  player has accepted, in the order it accepted them, followed by the resources of the
  items still queued, are the resources of the enqueued items in the order they were
  enqueued. The player holds at most the resource it accepted last, and no item waits
  while the player is idle. The sequence is arbitrary, so this holds after each of its
  steps.
\<close>

theorem tracks_play_in_enqueue_order:
  assumes "\<forall>t\<in>set (enqueued hs). handOffError p t = None" and "Stop \<notin> set hs"
  shows "map Some (played (run p hs (construct c))) @ map audioResource (queue (run p hs (construct c))) =
           map audioResource (enqueued hs)
       \<and> (status (audioPlayer (run p hs (construct c))) = Idle \<longrightarrow> queue (run p hs (construct c)) = [])
       \<and> (status (audioPlayer (run p hs (construct c))) \<noteq> Idle \<longrightarrow>
            played (run p hs (construct c)) \<noteq> []
            \<and> resource (audioPlayer (run p hs (construct c))) = last (played (run p hs (construct c))))"
proof -
  have o: "orderly (construct c :: ('a, 'b) MusicSubscription)"
    by (simp add: orderly_def construct_def)
  have "orderly (run p hs (construct c))
       \<and> map Some (played (run p hs (construct c))) @ map audioResource (queue (run p hs (construct c))) =
           map Some (played (construct c :: ('a, 'b) MusicSubscription))
           @ map audioResource (queue (construct c :: ('a, 'b) MusicSubscription)) @ map audioResource (enqueued hs)"
    using assms by (intro run_orderly o) (simp_all add: construct_def)
  then show ?thesis by (simp add: orderly_def construct_def)
qed

theorem tracks_play_in_enqueue_order_witness:
  "handOffError picky (song 1) = None \<and> handOffError picky (song 2) = None
   \<and> map Some (played (run picky [Enqueue (song 1), Enqueue (song 2), PlayerMoves Playing, PlayerMoves Idle] session))
       @ map audioResource (queue (run picky [Enqueue (song 1), Enqueue (song 2), PlayerMoves Playing, PlayerMoves Idle] session))
     = [audioResource (song 1), audioResource (song 2)]"
proof -
  have h: "handOffError picky (song 1) = None" "handOffError picky (song 2) = None"
    by (simp_all add: song_accepted)
  then have "\<forall>t\<in>set (enqueued [Enqueue (song 1), Enqueue (song 2), PlayerMoves Playing, PlayerMoves Idle]).
      handOffError picky t = None"
    by simp
  moreover have "Stop \<notin> set [Enqueue (song 1), Enqueue (song 2), PlayerMoves Playing, PlayerMoves Idle :: (nat, nat) Happening]"
    by simp
  ultimately show ?thesis
    using tracks_play_in_enqueue_order
      [of "[Enqueue (song 1), Enqueue (song 2), PlayerMoves Playing, PlayerMoves Idle]" picky link] h
    by (simp add: session_def)
qed

section \<open>Stopping\<close>

lemma stop_result:
  "stop p s =
     (if status (audioPlayer s) = Idle then s\<lparr> queueLock := True, queue := [] \<rparr>
      else s\<lparr> queueLock := True, queue := [], audioPlayer := IdleState,
              emitted := emitted s @
                [songEnded (TrackMetadata.reference (metadata (resource (audioPlayer s))))
                           (details (metadata (resource (audioPlayer s))))] \<rparr>)"
  by (simp add: stop_def stopPlayer_def setState.simps stateChange.simps processQueue_blocked emit_def)

lemma stop_halts: "queueLock (stop p s) \<and> audioPlayer (stop p s) = IdleState \<and> queue (stop p s) = []"
  by (cases "audioPlayer s") (simp_all add: stop_result)

lemma happen_halted:
  assumes "queueLock s" "audioPlayer s = IdleState"
  shows "queueLock (happen p h s) \<and> audioPlayer (happen p h s) = IdleState
       \<and> emitted (happen p h s) = emitted s \<and> played (happen p h s) = played s"
  using assms
  by (cases h) (simp_all add: enqueue_def processQueue_blocked stop_result playerMoves_def)

lemma run_halted:
  assumes "queueLock s" "audioPlayer s = IdleState"
  shows "queueLock (run p hs s) \<and> audioPlayer (run p hs s) = IdleState
       \<and> emitted (run p hs s) = emitted s \<and> played (run p hs s) = played s"
  using assms
proof (induction hs arbitrary: s)
  case Nil
  then show ?case by simp
next
  case (Cons h hs)
  from happen_halted [OF Cons.prems, of p h] Cons.IH [of "happen p h s"]
  show ?case by simp
qed

text \<open>
  C4, as the code has it. After \<open>stop\<close> the queue is empty, the player is idle and the
  queue lock is set; \<open>stop\<close> itself emits one \<open>songEnded\<close>, for the item it cut off, when
  the player was not idle. Nothing opens the lock again: an \<open>enqueue\<close> after \<open>stop\<close> only
  puts the item in the queue, and whatever calls and player moves follow, no
  notification is emitted, no resource reaches the player and the player stays idle.
\<close>

theorem stop_is_final:
  "queue (stop p s) = []
   \<and> audioPlayer (stop p s) = IdleState
   \<and> queueLock (stop p s)
   \<and> emitted (stop p s) = emitted s @
        (if status (audioPlayer s) = Idle then []
         else [songEnded (TrackMetadata.reference (metadata (resource (audioPlayer s))))
                         (details (metadata (resource (audioPlayer s))))])
   \<and> enqueue p t (stop p s) = (stop p s)\<lparr> queue := [t] \<rparr>
   \<and> (\<forall>hs. emitted (run p hs (stop p s)) = emitted (stop p s)
           \<and> played (run p hs (stop p s)) = played (stop p s)
           \<and> audioPlayer (run p hs (stop p s)) = IdleState
           \<and> queueLock (run p hs (stop p s)))"
proof -
  have h: "queueLock (stop p s)" "audioPlayer (stop p s) = IdleState" "queue (stop p s) = []"
    using stop_halts [of p s] by simp_all
  have e: "emitted (stop p s) = emitted s @
        (if status (audioPlayer s) = Idle then []
         else [songEnded (TrackMetadata.reference (metadata (resource (audioPlayer s))))
                         (details (metadata (resource (audioPlayer s))))])"
    by (simp add: stop_result)
  have q: "enqueue p t (stop p s) = (stop p s)\<lparr> queue := [t] \<rparr>"
    using h by (simp add: enqueue_def processQueue_blocked)
  have r: "\<forall>hs. emitted (run p hs (stop p s)) = emitted (stop p s)
           \<and> played (run p hs (stop p s)) = played (stop p s)
           \<and> audioPlayer (run p hs (stop p s)) = IdleState
           \<and> queueLock (run p hs (stop p s))"
    using run_halted [OF h(1,2)] by simp
  show ?thesis by (intro conjI h e q r)
qed

text \<open>
  An item the player would start at once: enqueued on a new session it is played, and
  enqueued after \<open>stop\<close> it stays in the queue, the player idle and nothing emitted.
\<close>

lemma stop_session: "stop picky session = session\<lparr> queueLock := True \<rparr>"
  by (simp add: stop_result session_def construct_def)

theorem enqueue_after_stop_counterexample:
  "handOffError picky (song 2) = None
   \<and> status (audioPlayer (enqueue picky (song 2) session)) = Playing
   \<and> played (enqueue picky (song 2) session) = [audio 2]
   \<and> status (audioPlayer (enqueue picky (song 2) (stop picky session))) = Idle
   \<and> played (enqueue picky (song 2) (stop picky session)) = []
   \<and> emitted (enqueue picky (song 2) (stop picky session)) = []
   \<and> queue (enqueue picky (song 2) (stop picky session)) = [song 2]"
proof -
  have ok: "handOffError picky (song 2) = None" by (simp add: song_accepted)
  have p: "picky (audio 2) = EntersPlaying" by (simp add: picky_def audio_def)
  let ?s = "session\<lparr> queue := queue session @ [song 2] \<rparr>"
  have g: "\<not> queueLock ?s" "status (audioPlayer ?s) = Idle" "queue ?s = [song 2]"
    by (simp_all add: session_def construct_def)
  have live: "enqueue picky (song 2) session =
      ?s\<lparr> queue := [], played := played ?s @ [audio 2], audioPlayer := PlayingState (audio 2),
          emitted := emitted ?s @
            [songStarted (TrackMetadata.reference (metadata (audio 2))) (details (metadata (audio 2)))],
          queueLock := False \<rparr>"
    unfolding enqueue_def
    by (rule processQueue_playing [where p = picky and r = "audio 2", OF g song_resource p])
  have dead: "enqueue picky (song 2) (stop picky session) = session\<lparr> queueLock := True, queue := [song 2] \<rparr>"
    by (simp add: enqueue_def stop_session processQueue_blocked) (simp add: session_def construct_def)
  show ?thesis
    using ok by (simp add: live dead) (simp add: session_def construct_def)
qed

text \<open>
  C5, as the code has it. \<open>stop\<close> on a subscription that has just been stopped changes
  nothing. After whatever has happened to a stopped subscription since, another \<open>stop\<close>
  empties the queue and changes nothing else: not the queue lock, not the player's
  state, not the notifications. It changes nothing at all exactly when the queue is
  empty, that is when nothing was enqueued since the last \<open>stop\<close>.
\<close>

theorem stop_again:
  "stop p (stop p s) = stop p s
   \<and> (\<forall>hs. stop p (run p hs (stop p s)) = (run p hs (stop p s))\<lparr> queue := [] \<rparr>
          \<and> (stop p (run p hs (stop p s)) = run p hs (stop p s)) = (queue (run p hs (stop p s)) = []))"
proof -
  have h: "queueLock (stop p s)" "audioPlayer (stop p s) = IdleState" "queue (stop p s) = []"
    using stop_halts [of p s] by simp_all
  have after: "stop p s' = s'\<lparr> queue := [] \<rparr>" if "queueLock s'" "audioPlayer s' = IdleState" for s'
  proof -
    have "stop p s' = s'\<lparr> queueLock := True, queue := [] \<rparr>"
      using that(2) by (subst stop_result) simp
    also have "\<dots> = s'\<lparr> queue := [] \<rparr>"
      using that(1) by simp
    finally show ?thesis .
  qed
  have "stop p (stop p s) = (stop p s)\<lparr> queue := [] \<rparr>"
    using h(1,2) by (rule after)
  also have "\<dots> = stop p s"
    using h(3) by simp
  finally have idem: "stop p (stop p s) = stop p s" .
  have later: "stop p (run p hs (stop p s)) = (run p hs (stop p s))\<lparr> queue := [] \<rparr>
          \<and> (stop p (run p hs (stop p s)) = run p hs (stop p s)) = (queue (run p hs (stop p s)) = [])" for hs
  proof -
    let ?s = "run p hs (stop p s)"
    have r: "queueLock ?s" "audioPlayer ?s = IdleState"
      using run_halted [OF h(1,2), of p hs] by simp_all
    have eq: "stop p ?s = ?s\<lparr> queue := [] \<rparr>"
      using r by (rule after)
    have "(?s\<lparr> queue := [] \<rparr> = ?s) = (queue ?s = [])"
    proof
      assume "?s\<lparr> queue := [] \<rparr> = ?s"
      then have "queue (?s\<lparr> queue := [] \<rparr>) = queue ?s" by (rule arg_cong)
      then show "queue ?s = []" by simp
    next
      assume "queue ?s = []"
      then show "?s\<lparr> queue := [] \<rparr> = ?s" by simp
    qed
    then show ?thesis by (simp only: eq)
  qed
  show ?thesis using idem later by blast
qed

text \<open>
  A \<open>stop\<close> that is not a no-op on a stopped subscription: an item enqueued after the
  first \<open>stop\<close> waits in the queue, and the second \<open>stop\<close> drops it.
\<close>

theorem stop_after_enqueue_counterexample:
  "queue (enqueue picky (song 2) (stop picky session)) = [song 2]
   \<and> queue (stop picky (enqueue picky (song 2) (stop picky session))) = []
   \<and> stop picky (enqueue picky (song 2) (stop picky session)) \<noteq> enqueue picky (song 2) (stop picky session)"
proof -
  have dead: "enqueue picky (song 2) (stop picky session) = session\<lparr> queueLock := True, queue := [song 2] \<rparr>"
    by (simp add: enqueue_def stop_session processQueue_blocked) (simp add: session_def construct_def)
  have q: "queue (enqueue picky (song 2) (stop picky session)) = [song 2]"
    by (simp add: dead)
  have "stop picky (session\<lparr> queueLock := True, queue := [song 2] \<rparr>) = session\<lparr> queueLock := True, queue := [] \<rparr>"
    by (subst stop_result) (simp add: session_def construct_def)
  then have e: "queue (stop picky (enqueue picky (song 2) (stop picky session))) = []"
    by (simp add: dead)
  have "stop picky (enqueue picky (song 2) (stop picky session)) \<noteq> enqueue picky (song 2) (stop picky session)"
  proof
    assume "stop picky (enqueue picky (song 2) (stop picky session)) = enqueue picky (song 2) (stop picky session)"
    then have "queue (stop picky (enqueue picky (song 2) (stop picky session))) =
        queue (enqueue picky (song 2) (stop picky session))"
      by (rule arg_cong)
    then show False by (simp only: q e) simp
  qed
  with q e show ?thesis by (intro conjI)
qed

section \<open>Supervising the connection\<close>

text \<open>
  C6. On a change to a disconnected state whose reason is a closed web socket with code
  4014, the listener calls nothing and waits for \<^verbatim>\<open>entersState(connection, Connecting, 5000)\<close>.
  If that is fulfilled (the connection is connecting again within 5000 ms) the
  listener ends without a call; if it is rejected, the listener calls \<open>destroy\<close>, once.
\<close>

theorem disconnected_4014:
  "connectionStateChange p old (DisconnectedState WebSocketClose (Some 4014)) s =
     (s, Some (entersState Connecting 5000))
   \<and> resume (entersState Connecting 5000) True s' = s'
   \<and> resume (entersState Connecting 5000) False s' =
       s'\<lparr> voiceConnection := (voiceConnection s')\<lparr> calls := calls (voiceConnection s') @ [destroy] \<rparr> \<rparr>
   \<and> calls (voiceConnection (resume (entersState Connecting 5000) False s')) =
       calls (voiceConnection s') @ [destroy]"
  by (simp add: connectionStateChange_def callConnection_def)

text \<open>
  C7. On a change to any other disconnected state: with \<open>n < 5\<close> attempts to rejoin
  made, the listener waits \<open>(n + 1) * 5000\<close> ms and then calls \<open>rejoin\<close>; that is 5000,
  10000, 15000, 20000 and 25000 ms for 0 to 4 attempts. With 5 attempts or more it
  calls \<open>destroy\<close> at once and waits for nothing.
\<close>

theorem disconnected_backoff:
  assumes "\<not> (r = WebSocketClose \<and> c = Some 4014)"
  shows "(rejoinAttempts (voiceConnection s) < 5 \<longrightarrow>
            connectionStateChange p old (DisconnectedState r c) s =
              (s, Some (wait ((rejoinAttempts (voiceConnection s) + 1) * 5000))))
       \<and> resume (wait ms) fulfilled s' =
            s'\<lparr> voiceConnection := (voiceConnection s')\<lparr> calls := calls (voiceConnection s') @ [rejoin] \<rparr> \<rparr>
       \<and> (5 \<le> rejoinAttempts (voiceConnection s) \<longrightarrow>
            connectionStateChange p old (DisconnectedState r c) s =
              (s\<lparr> voiceConnection := (voiceConnection s)\<lparr> calls := calls (voiceConnection s) @ [destroy] \<rparr> \<rparr>,
               None))
       \<and> map (\<lambda>n. snd (connectionStateChange p old (DisconnectedState r c) (withAttempts n s))) [0, 1, 2, 3, 4, 5] =
            [Some (wait 5000), Some (wait 10000), Some (wait 15000), Some (wait 20000), Some (wait 25000), None]"
  using assms by (auto simp: connectionStateChange_def callConnection_def withAttempts_def)

theorem disconnected_backoff_witness:
  "AdapterUnavailable \<noteq> WebSocketClose
   \<and> rejoinAttempts (voiceConnection session) < 5
   \<and> connectionStateChange picky SignallingState (DisconnectedState AdapterUnavailable None) session =
       (session, Some (wait 5000))
   \<and> 5 \<le> rejoinAttempts (voiceConnection (withAttempts 5 session))
   \<and> calls (voiceConnection (fst (connectionStateChange picky SignallingState
        (DisconnectedState AdapterUnavailable None) (withAttempts 5 session)))) = [destroy]
   \<and> snd (connectionStateChange picky SignallingState
        (DisconnectedState AdapterUnavailable None) (withAttempts 5 session)) = None"
proof -
  have h: "\<not> (AdapterUnavailable = WebSocketClose \<and> (None :: int option) = Some 4014)" by simp
  note w1 = disconnected_backoff [OF h, of session picky SignallingState]
  note w2 = disconnected_backoff [OF h, of "withAttempts 5 session" picky SignallingState]
  have n1: "rejoinAttempts (voiceConnection session) < 5"
    by (simp add: session_def construct_def link_def)
  have n2: "5 \<le> rejoinAttempts (voiceConnection (withAttempts 5 session))"
    by (simp add: withAttempts_def)
  have a: "connectionStateChange picky SignallingState (DisconnectedState AdapterUnavailable None) session =
       (session, Some (wait 5000))"
    using w1 [THEN conjunct1, THEN mp, OF n1] by (simp add: session_def construct_def link_def)
  have b: "connectionStateChange picky SignallingState (DisconnectedState AdapterUnavailable None) (withAttempts 5 session) =
       ((withAttempts 5 session)\<lparr> voiceConnection := (voiceConnection (withAttempts 5 session))
           \<lparr> calls := calls (voiceConnection (withAttempts 5 session)) @ [destroy] \<rparr> \<rparr>, None)"
    using w2 [THEN conjunct2, THEN conjunct2, THEN conjunct1, THEN mp, OF n2] .
  show ?thesis
    using n1 n2 a by (simp add: b) (simp add: withAttempts_def session_def construct_def link_def)
qed

lemma stop_readyLock: "readyLock (stop p s) = readyLock s"
  by (simp add: stop_result)

lemma connectionMoves_guarded:
  assumes "guarded (s, pending)"
  shows "guarded (connectionStep p (Moves n) (s, pending))"
  using assms
  by (auto simp: guarded_def connectionMoves_def connectionStateChange_def callConnection_def stop_readyLock)

lemma filter_remove_nth:
  "i < length xs \<Longrightarrow>
     length (filter P (take i xs @ drop (Suc i) xs)) = length (filter P xs) - (if P (xs ! i) then 1 else 0)"
proof -
  assume "i < length xs"
  then have "xs = take i xs @ xs ! i # drop (Suc i) xs"
    by (simp add: id_take_nth_drop)
  then have "length (filter P xs) = length (filter P (take i xs @ xs ! i # drop (Suc i) xs))"
    by simp
  then show ?thesis by simp
qed

lemma resume_readyLock:
  "readyLock (resume promise f s) = (if awaitsReady promise then False else readyLock s)"
  by (cases "(promise, f, s)" rule: resume.cases) (simp_all add: callConnection_def)

lemma settles_guarded:
  assumes "guarded (s, pending)"
  shows "guarded (connectionStep p (Settles i f) (s, pending))"
proof (cases "i < length pending")
  case False
  then show ?thesis using assms by simp
next
  case True
  have "awaitsReady (pending ! i) \<Longrightarrow> 0 < length (filter awaitsReady pending)"
    using True by (metis filter_empty_conv length_greater_0_conv nth_mem)
  then show ?thesis
    using assms True
    by (auto simp: guarded_def filter_remove_nth resume_readyLock simp del: filter_append)
qed

lemma connectionRun_guarded: "guarded cfg \<Longrightarrow> guarded (connectionRun p evs cfg)"
proof (induction evs arbitrary: cfg)
  case Nil
  then show ?case by simp
next
  case (Cons ev evs)
  obtain s pending where c: "cfg = (s, pending)" by (cases cfg)
  have "guarded (connectionStep p ev cfg)"
    using Cons.prems unfolding c
    by (cases ev) (simp_all only: connectionMoves_guarded settles_guarded)
  then show ?case by (simp add: Cons.IH)
qed

text \<open>
  C8. On a change to a connecting or signalling state: with the ready lock open, the
  listener sets it and waits for \<^verbatim>\<open>entersState(connection, Ready, 20000)\<close>; with the lock
  set, it does nothing. When the wait ends the lock is opened again, whether the wait
  was fulfilled or rejected; when it was rejected, the listener calls \<open>destroy\<close> unless
  the connection is destroyed already. Whatever state changes arrive and whatever
  waits end, in whatever order, the listener waits for at most one such bound at a
  time: for one when the lock is set and for none when it is open.
\<close>

theorem ready_bound:
  assumes "connectionStatus n = Connecting \<or> connectionStatus n = Signalling"
  shows "(\<not> readyLock s \<longrightarrow>
            connectionStateChange p old n s = (s\<lparr> readyLock := True \<rparr>, Some (entersState Ready 20000)))
       \<and> (readyLock s \<longrightarrow> connectionStateChange p old n s = (s, None))
       \<and> resume (entersState Ready 20000) True s' = s'\<lparr> readyLock := False \<rparr>
       \<and> resume (entersState Ready 20000) False s' =
            (if connectionStatus (state (voiceConnection s')) = Destroyed then s'\<lparr> readyLock := False \<rparr>
             else s'\<lparr> voiceConnection := (voiceConnection s')\<lparr> calls := calls (voiceConnection s') @ [destroy] \<rparr>,
                     readyLock := False \<rparr>)
       \<and> (\<forall>evs. length (filter awaitsReady (snd (connectionRun p evs (construct c, [])))) =
                  (if readyLock (fst (connectionRun p evs (construct c, []))) then 1 else 0))"
proof -
  have g: "guarded (construct c :: ('a, 'b) MusicSubscription, [])"
    by (simp add: guarded_def construct_def)
  have "\<forall>evs. guarded (connectionRun p evs (construct c, []))"
    using connectionRun_guarded [OF g] by simp
  then have inv: "\<forall>evs. length (filter awaitsReady (snd (connectionRun p evs (construct c, [])))) =
                  (if readyLock (fst (connectionRun p evs (construct c, []))) then 1 else 0)"
    by (simp add: guarded_def)
  have hd: "(\<not> readyLock s \<longrightarrow>
            connectionStateChange p old n s = (s\<lparr> readyLock := True \<rparr>, Some (entersState Ready 20000)))
       \<and> (readyLock s \<longrightarrow> connectionStateChange p old n s = (s, None))"
    using assms by (auto simp: connectionStateChange_def)
  have rs: "resume (entersState Ready 20000) True s' = s'\<lparr> readyLock := False \<rparr>
       \<and> resume (entersState Ready 20000) False s' =
            (if connectionStatus (state (voiceConnection s')) = Destroyed then s'\<lparr> readyLock := False \<rparr>
             else s'\<lparr> voiceConnection := (voiceConnection s')\<lparr> calls := calls (voiceConnection s') @ [destroy] \<rparr>,
                     readyLock := False \<rparr>)"
    by (simp add: callConnection_def)
  show ?thesis using hd rs inv by blast
qed

theorem ready_bound_witness:
  "connectionStatus ConnectingState = Connecting
   \<and> \<not> readyLock session
   \<and> connectionStateChange picky SignallingState ConnectingState session =
       (session\<lparr> readyLock := True \<rparr>, Some (entersState Ready 20000))
   \<and> connectionStatus SignallingState = Signalling
   \<and> readyLock (session\<lparr> readyLock := True \<rparr>)
   \<and> connectionStateChange picky ConnectingState SignallingState (session\<lparr> readyLock := True \<rparr>) =
       (session\<lparr> readyLock := True \<rparr>, None)"
proof -
  have h1: "connectionStatus ConnectingState = Connecting \<or> connectionStatus ConnectingState = Signalling"
    by simp
  have h2: "connectionStatus SignallingState = Connecting \<or> connectionStatus SignallingState = Signalling"
    by simp
  have l1: "\<not> readyLock session" by (simp add: session_def construct_def)
  have l2: "readyLock (session\<lparr> readyLock := True \<rparr>)" by simp
  note w1 = ready_bound [OF h1, of session picky SignallingState]
  note w2 = ready_bound [OF h2, of "session\<lparr> readyLock := True \<rparr>" picky ConnectingState]
  note a = w1 [THEN conjunct1, THEN mp, OF l1]
  note b = w2 [THEN conjunct2, THEN conjunct1, THEN mp, OF l2]
  show ?thesis
    using l1 a b by simp
qed

subsection \<open>The subscription as the constructor returns it\<close>

text \<open>
  \<open>subscribe\<close> leaves the queue, the queue lock, the player and both traces as
  \<open>construct\<close> made them, so the order of play is that of C1 from there too; on a
  connection still coming up the ready bound is pending already, and the count of
  pending bounds of C8 holds from there as well.
\<close>

lemma newSubscription_fields:
  "queue (fst (newSubscription p c)) = [] \<and> \<not> queueLock (fst (newSubscription p c))
   \<and> audioPlayer (fst (newSubscription p c)) = IdleState
   \<and> played (fst (newSubscription p c)) = [] \<and> emitted (fst (newSubscription p c)) = []"
  by (simp add: newSubscription_def subscribe_def connectionMoves_def connectionStateChange_def
      callConnection_def construct_def)

lemma newSubscription_ready:
  "connectionStatus (state c) = Signalling \<or> connectionStatus (state c) = Connecting \<Longrightarrow>
     readyLock (fst (newSubscription p c)) \<and> snd (newSubscription p c) = Some (entersState Ready 20000)"
  by (auto simp: newSubscription_def subscribe_def connectionMoves_def connectionStateChange_def
      construct_def)

lemma newSubscription_orderly:
  assumes "\<forall>t\<in>set (enqueued hs). handOffError p t = None" and "Stop \<notin> set hs"
  shows "map Some (played (run p hs (fst (newSubscription p' c))))
           @ map audioResource (queue (run p hs (fst (newSubscription p' c)))) =
         map audioResource (enqueued hs)"
proof -
  let ?s = "fst (newSubscription p' c)"
  note f = newSubscription_fields [of p' c]
  have o: "orderly ?s" using f by (simp add: orderly_def)
  have "orderly (run p hs ?s)
       \<and> map Some (played (run p hs ?s)) @ map audioResource (queue (run p hs ?s)) =
           map Some (played ?s) @ map audioResource (queue ?s) @ map audioResource (enqueued hs)"
    using assms f by (intro run_orderly o) simp_all
  then show ?thesis using f by simp
qed

lemma newSubscription_guarded:
  "guarded (connectionRun p evs
     (fst (newSubscription p c), case snd (newSubscription p c) of None \<Rightarrow> [] | Some w \<Rightarrow> [w]))"
proof -
  let ?cfg = "(fst (newSubscription p c), case snd (newSubscription p c) of None \<Rightarrow> [] | Some w \<Rightarrow> [w])"
  have "guarded ?cfg"
    by (auto simp: guarded_def newSubscription_def subscribe_def connectionMoves_def
        connectionStateChange_def callConnection_def construct_def)
  then show ?thesis by (rule connectionRun_guarded)
qed

section \<open>Durations\<close>

lemma width_le: "n < 2 ^ k \<Longrightarrow> width n \<le> k"
proof (induction k arbitrary: n)
  case 0
  then show ?case by (simp add: width.simps)
next
  case (Suc k)
  then have "n div 2 < 2 ^ k" by simp
  then have "width (n div 2) \<le> k" by (rule Suc.IH)
  then show ?case by (subst width.simps) simp
qed

lemma width_one: "width (Suc 0) = Suc 0"
  by (simp add: width.simps)

lemma width_sixty: "width 60 = 6"
  by (simp add: width.simps)

text \<open>The rounding on two familiar quotients: a third and a tenth as doubles.\<close>

lemma one_third: "numberDivide 1 3 = Double 6004799503160661 (- 54)"
  by (simp add: numberDivide_def nearest_def Let_def atLeastPower_def nearestEven_def width.simps)

lemma one_tenth: "numberDivide 1 10 = Double 7205759403792794 (- 56)"
  by (simp add: numberDivide_def nearest_def Let_def atLeastPower_def nearestEven_def width.simps)

lemma nearestEven_lower: "a div b \<le> nearestEven a b"
  by (simp add: nearestEven_def)

lemma nearestEven_upper:
  assumes "0 < b"
  shows "2 * b * nearestEven a b \<le> 2 * a + b"
proof -
  have a: "b * (a div b) + a mod b = a" by simp
  have low: "2 * b * (a div b) \<le> 2 * a + b"
    using a by (metis add.commute le_add2 le_add_same_cancel2 mult.assoc mult_le_mono2 trans_le_add2 zero_le)
  have up: "2 * b * (a div b + 1) \<le> 2 * a + b" if h: "b \<le> 2 * (a mod b)"
  proof -
    have "2 * b * (a div b + 1) = 2 * (b * (a div b)) + 2 * b" by (simp add: algebra_simps)
    also have "\<dots> \<le> 2 * (b * (a div b)) + 2 * (a mod b) + b" using h by simp
    also have "\<dots> = 2 * (b * (a div b) + a mod b) + b" by (simp only: add_mult_distrib2)
    also have "\<dots> = 2 * a + b" by (simp only: a)
    finally show ?thesis .
  qed
  show ?thesis
    using low up by (auto simp: nearestEven_def)
qed

lemma nearestEven_one: "nearestEven a (Suc 0) = a"
  by (simp add: nearestEven_def)

lemma nearest_small:
  assumes "width a \<le> width b + 47"
  shows "\<exists>j\<ge>5. nearest a b = Double (int (nearestEven (a * 2 ^ j) b)) (- int j)"
proof -
  define e where "e = (if atLeastPower a b (int (width a) - int (width b))
                       then int (width a) - int (width b) else int (width a) - int (width b) - 1)"
  have e: "e \<le> 47" using assms by (simp add: e_def)
  have "nearest a b = Double (int (nearestEven (a * 2 ^ nat (52 - e)) b)) (e - 52)"
    using e by (simp add: nearest_def Let_def e_def)
  moreover have "5 \<le> nat (52 - e)" "e - 52 = - int (nat (52 - e))" using e by simp_all
  ultimately show ?thesis by metis
qed

lemma scaled_floor:
  assumes "5 \<le> j"
  shows "nearestEven (a * 2 ^ j) 60 div 2 ^ j = a div 60"
proof -
  define T :: nat where "T = 2 ^ j"
  define m where "m = nearestEven (a * T) 60"
  define Q where "Q = a div 60"
  define r where "r = a mod 60"
  have "(2::nat) ^ 5 \<le> 2 ^ j" using assms by (intro power_increasing) simp_all
  then have T: "32 \<le> T" by (simp add: T_def)
  have a: "a = 60 * Q + r" and r: "r < 60" by (simp_all add: Q_def r_def)
  have aT: "a * T = 60 * (Q * T) + r * T" by (simp add: a algebra_simps)
  have rT: "r * T \<le> 59 * T" using r by (intro mult_le_mono1) simp
  have "Q * T * 60 \<le> a * T" by (simp add: aT)
  then have "Q * T \<le> (a * T) div 60" by (simp add: less_eq_div_iff_mult_less_eq)
  also have "\<dots> \<le> m" unfolding m_def by (rule nearestEven_lower)
  finally have low: "T * Q \<le> m" by (simp add: mult.commute)
  have "2 * 60 * m \<le> 2 * (a * T) + 60" unfolding m_def by (rule nearestEven_upper) simp
  then have "120 * m \<le> 120 * (Q * T) + 2 * (r * T) + 60" by (simp add: aT)
  then have "120 * m < 120 * (Q * T) + 120 * T" using rT T by linarith
  then have "m < Q * T + T" by simp
  then have up: "m < T * Suc Q" by (simp add: mult.commute)
  have "m div T = Q" using low up by (rule div_nat_eqI)
  then show ?thesis by (simp add: m_def T_def Q_def)
qed

lemma floor_quotient:
  assumes "0 < s" and "s < 2 ^ 53"
  shows "mathFloor (numberDivide s 60) = s div 60"
proof -
  define a where "a = nat s"
  have s: "s = int a" using assms(1) by (simp add: a_def)
  have "a < 2 ^ 53" using assms(2) by (simp add: a_def nat_less_iff)
  then have "width a \<le> 53" by (rule width_le)
  then have "width a \<le> width 60 + 47" by (simp add: width_sixty)
  from nearest_small [OF this] obtain j where j: "5 \<le> j"
    and n: "nearest a 60 = Double (int (nearestEven (a * 2 ^ j) 60)) (- int j)"
    by blast
  have "numberDivide s 60 = nearest a 60"
    using assms(1) by (simp add: numberDivide_def a_def)
  then have "mathFloor (numberDivide s 60) = int (nearestEven (a * 2 ^ j) 60) div 2 ^ j"
    using j by (simp add: n mathFloor_def)
  also have "\<dots> = int (nearestEven (a * 2 ^ j) 60 div 2 ^ j)"
    by (simp add: zdiv_int)
  also have "\<dots> = int (a div 60)"
    by (simp only: scaled_floor [OF j])
  also have "\<dots> = s div 60"
    by (simp add: s zdiv_int)
  finally show ?thesis .
qed

lemma rounded_exact:
  assumes "0 \<le> n" and "n < 2 ^ 53"
  shows "rounded n = n"
proof (cases "n = 0")
  case True
  then show ?thesis by (simp add: rounded_def numberDivide_def mathFloor_def)
next
  case False
  define a where "a = nat n"
  have n: "n = int a" "0 < n" using assms(1) False by (simp_all add: a_def)
  have "a < 2 ^ 53" using assms(2) by (simp add: a_def nat_less_iff)
  then have w: "width a \<le> 53" by (rule width_le)
  define e where "e = (if atLeastPower a (Suc 0) (int (width a) - 1)
                       then int (width a) - 1 else int (width a) - 1 - 1)"
  have e: "e \<le> 52" using w by (simp add: e_def)
  have "mathFloor (nearest a (Suc 0)) = int a"
  proof (cases "e = 52")
    case True
    then have "nearest a (Suc 0) = Double (int (nearestEven a (Suc 0))) 0"
      by (simp add: nearest_def Let_def e_def width_one)
    then show ?thesis by (simp add: mathFloor_def nearestEven_one)
  next
    case False
    with e have lt: "e < 52" by simp
    then have "nearest a (Suc 0) = Double (int (nearestEven (a * 2 ^ nat (52 - e)) (Suc 0))) (e - 52)"
      by (simp add: nearest_def Let_def e_def width_one)
    then show ?thesis using lt by (simp add: mathFloor_def nearestEven_one)
  qed
  moreover have "numberDivide n 1 = nearest a (Suc 0)"
    using n(2) by (simp add: numberDivide_def a_def)
  ultimately have "rounded n = int a" by (simp add: rounded_def)
  then show ?thesis by (simp only: n(1))
qed

lemma floor_sixty: "\<lfloor>real_of_int s / 60\<rfloor> = s div 60"
  by (metis floor_divide_of_int_eq of_int_numeral)

lemma digits_one: "n < 10 \<Longrightarrow> length (digits n) = 1"
  by (subst digits.simps) simp

lemma digits_two: "10 \<le> n \<Longrightarrow> n < 100 \<Longrightarrow> length (digits n) = 2"
  by (subst digits.simps) (simp add: digits_one)

lemma digits_length:
  "0 \<le> i \<Longrightarrow> i < 60 \<Longrightarrow> length (digits (nat i)) = (if i < 10 then 1 else 2)"
  by (auto simp: digits_one digits_two)

lemma toString_exact: "0 \<le> i \<Longrightarrow> i < 2 ^ 53 \<Longrightarrow> toString large i = digits (nat i)"
  by (simp add: toString_def)

lemma durationWrapper_exact:
  assumes "0 \<le> s" and "s < 2 ^ 53"
  shows "flatMinutes (durationWrapper large s) = s div 60"
    and "seconds (durationWrapper large s) = s mod 60"
    and "timestamp (durationWrapper large s) = digits (nat (s div 60)) @ '':'' @ digits (nat (s mod 60))"
proof -
  have fl: "mathFloor (numberDivide s 60) = s div 60"
  proof (cases "s = 0")
    case True
    then show ?thesis by (simp add: numberDivide_def mathFloor_def)
  next
    case False
    with assms(1) have "0 < s" by simp
    then show ?thesis using assms(2) by (rule floor_quotient)
  qed
  have m: "0 \<le> s div 60" "s div 60 * 60 \<le> s" "s div 60 \<le> s"
    using assms(1) by (simp_all add: pos_imp_zdiv_nonneg_iff)
  have "0 \<le> s div 60 * 60" "s div 60 * 60 < 2 ^ 53" using m assms(2) by simp_all
  then have r1: "rounded (s div 60 * 60) = s div 60 * 60" by (rule rounded_exact)
  have d: "s - s div 60 * 60 = s mod 60" by (simp add: minus_div_mult_eq_mod)
  have "s mod 60 < 60" by simp
  then have "0 \<le> s mod 60" "s mod 60 < 2 ^ 53" by simp_all
  then have r2: "rounded (s mod 60) = s mod 60" by (rule rounded_exact)
  show "flatMinutes (durationWrapper large s) = s div 60"
    by (simp add: durationWrapper_def Let_def fl)
  show sec: "seconds (durationWrapper large s) = s mod 60"
    by (simp add: durationWrapper_def Let_def fl r1 d r2)
  have t1: "toString large (s div 60) = digits (nat (s div 60))"
    using m(1,3) assms(2) by (intro toString_exact) simp_all
  have t2: "toString large (s mod 60) = digits (nat (s mod 60))"
    using \<open>s mod 60 < 60\<close> by (intro toString_exact) simp_all
  show "timestamp (durationWrapper large s) = digits (nat (s div 60)) @ '':'' @ digits (nat (s mod 60))"
    by (simp add: durationWrapper_def Let_def fl r1 d r2 t1 t2)
qed

text \<open>
  C10, for the whole numbers a double holds exactly. For \<open>0 \<le> s < 2^53\<close>,
  \<open>durationWrapper\<close> has \<open>flatMinutes\<close> the floor of \<open>s / 60\<close>, that is \<open>s div 60\<close>, and
  \<open>seconds\<close> what is left of \<open>s\<close> after sixty times the minutes, a number from 0 to 59.
  The \<open>timestamp\<close> is the digits of the minutes, a colon and the digits of the seconds,
  so seconds below ten take one character and not two: 65 seconds give \<open>1:5\<close>.
\<close>

theorem durationWrapper_fields:
  assumes "0 \<le> s" and "s < 2 ^ 53"
  shows "flatMinutes (durationWrapper large s) = \<lfloor>real_of_int s / 60\<rfloor>
   \<and> flatMinutes (durationWrapper large s) = s div 60
   \<and> seconds (durationWrapper large s) = s - 60 * flatMinutes (durationWrapper large s)
   \<and> flatMinutes (durationWrapper large s) * 60 + seconds (durationWrapper large s) = s
   \<and> 0 \<le> seconds (durationWrapper large s) \<and> seconds (durationWrapper large s) < 60
   \<and> timestamp (durationWrapper large s) =
        digits (nat (flatMinutes (durationWrapper large s))) @ '':''
          @ digits (nat (seconds (durationWrapper large s)))
   \<and> length (digits (nat (seconds (durationWrapper large s)))) =
        (if seconds (durationWrapper large s) < 10 then 1 else 2)
   \<and> timestamp (durationWrapper large 65) = ''1:5''"
proof -
  note e = durationWrapper_exact [OF assms, of large]
  have ex: "timestamp (durationWrapper large 65) = ''1:5''"
    by (subst durationWrapper_exact(3)) (simp_all add: digits.simps)
  have len: "length (digits (nat (s mod 60))) = (if s mod 60 < 10 then 1 else 2)"
    by (rule digits_length) simp_all
  have c1: "s div 60 = \<lfloor>real_of_int s / 60\<rfloor>"
    by (simp add: floor_sixty)
  have c3: "s mod 60 = s - 60 * (s div 60)"
    by (simp add: minus_mult_div_eq_mod)
  have c4: "s div 60 * 60 + s mod 60 = s"
    by simp
  have c5: "0 \<le> s mod 60" "s mod 60 < 60"
    by simp_all
  show ?thesis
    unfolding e by (intro conjI c1 c3 c4 c5 len ex refl)
qed

theorem durationWrapper_fields_witness:
  "(0::int) \<le> 65 \<and> (65::int) < 2 ^ 53
   \<and> flatMinutes (durationWrapper everyDigit 65) = 1
   \<and> seconds (durationWrapper everyDigit 65) = 65 - 60 * flatMinutes (durationWrapper everyDigit 65)
   \<and> timestamp (durationWrapper everyDigit 65) = ''1:5''"
proof -
  have h: "(0::int) \<le> 65" "(65::int) < 2 ^ 53" by simp_all
  note w = durationWrapper_fields [OF h, of everyDigit]
  have a: "flatMinutes (durationWrapper everyDigit 65) = 1"
    using w [THEN conjunct2, THEN conjunct1] by simp
  note b = w [THEN conjunct2, THEN conjunct2, THEN conjunct1]
  note c = w [THEN conjunct2, THEN conjunct2, THEN conjunct2, THEN conjunct2, THEN conjunct2,
              THEN conjunct2, THEN conjunct2, THEN conjunct2]
  show ?thesis
    using h a b c by simp
qed

text \<open>
  Beyond \<open>2^53\<close> the rounding shows. \<open>10^17\<close> is a double; its sixtieth rounds to
  \<open>6666666666666667 / 4\<close>, with floor 1666666666666666, and sixty times that, 40 short
  of \<open>10^17\<close>, rounds to the double 32 short of it.
\<close>

lemma divide_large:
  "numberDivide 100000000000000000 60 = Double 6666666666666667 (- 2)"
  by (simp add: numberDivide_def nearest_def Let_def atLeastPower_def nearestEven_def width.simps)

lemma rounded_large: "rounded 99999999999999960 = 99999999999999968"
  by (simp add: rounded_def numberDivide_def mathFloor_def nearest_def Let_def atLeastPower_def
      nearestEven_def width.simps)

theorem durationWrapper_large_counterexample:
  "flatMinutes (durationWrapper everyDigit 100000000000000000) = 1666666666666666
   \<and> seconds (durationWrapper everyDigit 100000000000000000) = 32
   \<and> 100000000000000000 - 60 * flatMinutes (durationWrapper everyDigit 100000000000000000) = 40
   \<and> flatMinutes (durationWrapper everyDigit 100000000000000000) * 60
       + seconds (durationWrapper everyDigit 100000000000000000) = 99999999999999992"
proof -
  have r: "rounded 32 = 32" by (rule rounded_exact) simp_all
  have m: "flatMinutes (durationWrapper everyDigit 100000000000000000) = 1666666666666666"
    by (simp add: durationWrapper_def Let_def divide_large mathFloor_def)
  have s: "seconds (durationWrapper everyDigit 100000000000000000) = 32"
    by (simp add: durationWrapper_def Let_def divide_large mathFloor_def rounded_large r)
  show ?thesis by (simp add: m s)
qed

end
